theory Spec2Isabelle
  imports Main "HOL-Library.Multiset" "HOL-Library.Sublist"
begin

section \<open>Data model\<close>

text \<open>
  The plugin (\<^verbatim>\<open>fontless\<close>, lib/vite/plugin.ts) rewrites CSS text. Strings are
  \<^typ>\<open>string\<close>; a JavaScript \<^verbatim>\<open>Set<string>\<close> is a duplicate-free list in insertion
  order; an optional field or an \<^verbatim>\<open>undefined\<close> result is an \<^typ>\<open>'a option\<close>.
\<close>

type_synonym GenericCSSFamily = string

text \<open>unifont's font sources: a remote source is the one that has a \<^verbatim>\<open>url\<close> key.\<close>

datatype FontSource = LocalFontSource string | RemoteFontSource string

record FontFaceData =
  src :: "FontSource list"
  descriptors :: string

text \<open>\<^verbatim>\<open>interface FontFaceResolution { fonts?: FontFaceData[]; fallbacks?: string[] }\<close>\<close>

record FontFaceResolution =
  fonts :: "FontFaceData list option"
  fallbacks :: "string list option"

text \<open>The second argument of \<^verbatim>\<open>resolveFontFace\<close>.\<close>

record ResolveOptions =
  ro_fallbacks :: "string list"
  ro_generic :: "GenericCSSFamily option"

text \<open>
  The optional \<^verbatim>\<open>fallbackOptions\<close> argument of \<^verbatim>\<open>addFontFaceDeclaration\<close>. The index
  is a JavaScript number: \<open>None\<close> stands for \<^verbatim>\<open>NaN\<close>, which is what
  \<^verbatim>\<open>undefined + parentOffset\<close> gives.
\<close>

record FallbackOptions =
  fo_generic :: "GenericCSSFamily option"
  fo_fallbacks :: "string list"
  fo_index :: "nat option"

text \<open>
  css-tree's \<^verbatim>\<open>Declaration\<close> node as the walker sees it: the property, the name of the
  enclosing at-rule (\<^verbatim>\<open>this.atrule?.name\<close>) and the value, which is either an unparsed
  \<^verbatim>\<open>Raw\<close> node or a parsed \<^verbatim>\<open>Value\<close> (its source text and start offset).
\<close>

datatype CssValue = Raw string | Value string nat

record Declaration =
  property :: string
  atrule :: "string option"
  dvalue :: CssValue

fun isRaw :: "CssValue \<Rightarrow> bool" where
  "isRaw (Raw _) = True"
| "isRaw (Value _ _) = False"

type_synonym TransformOptions = "(string \<times> string) list"

text \<open>
  \<^verbatim>\<open>FontlessOptions\<close> without the preload registry, which is mutable state and is
  threaded through the functions below.
\<close>

record FontlessOptions =
  resolveFontFace :: "string \<Rightarrow> ResolveOptions \<Rightarrow> FontFaceResolution option"
  processCSSVariables :: "bool option"
  shouldPreload :: "string \<Rightarrow> FontFaceData \<Rightarrow> bool"

text \<open>
  What the file imports and does not define: the parser and walker of css-tree (the
  declarations of a stylesheet in walk order), the helpers of \<^verbatim>\<open>../css/parse\<close> and
  \<^verbatim>\<open>../css/render\<close>, \<^verbatim>\<open>withLeadingSlash(dirname(id))\<close> of ufo and pathe, and esbuild's
  \<^verbatim>\<open>transform\<close>, whose promise either rejects (\<open>Inl\<close>) or resolves with the code
  (\<open>Inr\<close>). They are parameters of the model. The resolver and the helpers are total
  functions here: when one of them throws, the whole rewrite is rejected and no buffer
  is returned, which these definitions leave out.
\<close>

record Imports =
  parse :: "string \<Rightarrow> Declaration list"
  extractFontFamilies :: "Declaration \<Rightarrow> string list"
  extractGeneric :: "Declaration \<Rightarrow> GenericCSSFamily option"
  extractEndOfFirstChild :: "Declaration \<Rightarrow> nat option"
  generateFontFace :: "string \<Rightarrow> FontFaceData \<Rightarrow> string"
  generateFontFallbacks :: "string \<Rightarrow> FontFaceData \<Rightarrow> (string \<times> string) list \<Rightarrow> string list"
  relativiseFontSources :: "FontFaceData \<Rightarrow> string \<Rightarrow> FontFaceData"
  leadingSlashDirname :: "string \<Rightarrow> string"
  transform :: "string \<Rightarrow> TransformOptions option \<Rightarrow> string + string"

text \<open>
  The closure of \<^verbatim>\<open>fontless(options)\<close>: the options, the imports and the two variables
  \<^verbatim>\<open>isDev\<close> and \<^verbatim>\<open>postcssOptions\<close>, unset until \<^verbatim>\<open>configResolved\<close> runs.
\<close>

record Plugin =
  options :: FontlessOptions
  deps :: Imports
  isDev :: "bool option"
  postcssOptions :: "TransformOptions option"

definition truthy :: "bool option \<Rightarrow> bool" where
  "truthy b = (b = Some True)"

definition setAdd :: "'a \<Rightarrow> 'a list \<Rightarrow> 'a list" where
  "setAdd x xs = (if x \<in> set xs then xs else xs @ [x])"

definition startsWith :: "string \<Rightarrow> string \<Rightarrow> bool" where
  "startsWith str pre = (take (length pre) str = pre)"

fun join :: "string \<Rightarrow> string list \<Rightarrow> string" where
  "join sep [] = []"
| "join sep [x] = x"
| "join sep (x # y # ys) = x @ sep @ join sep (y # ys)"

section \<open>The edit buffer\<close>

text \<open>
  magic-string's \<^verbatim>\<open>MagicString\<close>, for the methods the plugin calls. The buffer keeps the
  original text, the text before it (\<^verbatim>\<open>intro\<close>) and, for each offset, the text anchored
  at the end of the chunk ending there (\<^verbatim>\<open>chunk.outro\<close>). \<^verbatim>\<open>prepend\<close> puts its content in
  front of the intro. \<^verbatim>\<open>prependLeft(index, content)\<close> splits at the index and puts the
  content in front of the outro of the chunk that ends there; where no chunk ends at the
  index (offset 0 of a non-empty text, an offset past the end, \<^verbatim>\<open>NaN\<close>) the content goes
  in front of the intro. \<^verbatim>\<open>toString\<close> is the intro followed by the chunks, each with its
  outro; \<^verbatim>\<open>hasChanged\<close> compares it with the original.
\<close>

record MagicString =
  original :: string
  intro :: string
  outro :: "nat \<Rightarrow> string"

definition newMagicString :: "string \<Rightarrow> MagicString" where
  "newMagicString code = \<lparr>original = code, intro = [], outro = (\<lambda>_. [])\<rparr>"

definition prepend :: "string \<Rightarrow> MagicString \<Rightarrow> MagicString" where
  "prepend content m = m\<lparr>intro := content @ intro m\<rparr>"

definition anchored :: "MagicString \<Rightarrow> nat option \<Rightarrow> bool" where
  "anchored m idx =
     (case idx of
        None \<Rightarrow> False
      | Some k \<Rightarrow> k \<le> length (original m) \<and> (0 < k \<or> original m = []))"

definition prependLeft :: "nat option \<Rightarrow> string \<Rightarrow> MagicString \<Rightarrow> MagicString" where
  "prependLeft idx content m =
     (if anchored m idx
      then m\<lparr>outro := (outro m)(the idx := content @ outro m (the idx))\<rparr>
      else m\<lparr>intro := content @ intro m\<rparr>)"

text \<open>The output from offset \<open>k\<close> on: each character preceded by the text anchored at it.\<close>

fun render :: "(nat \<Rightarrow> string) \<Rightarrow> nat \<Rightarrow> string \<Rightarrow> string" where
  "render f k [] = f k"
| "render f k (c # cs) = f k @ c # render f (Suc k) cs"

text \<open>The same without the text anchored at the end.\<close>

fun renderBefore :: "(nat \<Rightarrow> string) \<Rightarrow> nat \<Rightarrow> string \<Rightarrow> string" where
  "renderBefore f k [] = []"
| "renderBefore f k (c # cs) = f k @ c # renderBefore f (Suc k) cs"

definition toString :: "MagicString \<Rightarrow> string" where
  "toString m = intro m @ render (outro m) 0 (original m)"

definition hasChanged :: "MagicString \<Rightarrow> bool" where
  "hasChanged m = (original m \<noteq> toString m)"

section \<open>The preload registry\<close>

text \<open>
  \<^verbatim>\<open>options.fontsToPreload: Map<string, Set<string>>\<close>. The sets are objects: two keys
  can hold the same set, and \<^verbatim>\<open>urls.add\<close> changes it for both. So the registry is a map
  from keys to addresses and a store from addresses to sets.
\<close>

record Registry =
  refs :: "string \<Rightarrow> nat option"
  cells :: "nat \<Rightarrow> string list"
  fresh :: nat

definition urlsOf :: "Registry \<Rightarrow> string \<Rightarrow> string set" where
  "urlsOf r k = (case refs r k of None \<Rightarrow> {} | Some a \<Rightarrow> set (cells r a))"

text \<open>
  Lines 55-56: \<^verbatim>\<open>const urls = fontsToPreload.get(id) || new Set();
  fontsToPreload.set(id, urls.add(fontToPreload))\<close>.
\<close>

definition recordPreload :: "string \<Rightarrow> string \<Rightarrow> Registry \<Rightarrow> Registry" where
  "recordPreload ident u r =
     (case refs r ident of
        Some a \<Rightarrow> r\<lparr>cells := (cells r)(a := setAdd u (cells r a))\<rparr>
      | None \<Rightarrow> r\<lparr>refs := (refs r)(ident \<mapsto> fresh r),
                   cells := (cells r)(fresh r := [u]),
                   fresh := Suc (fresh r)\<rparr>)"


definition propagate :: "string \<Rightarrow> string \<Rightarrow> Registry \<Rightarrow> Registry" where
  "propagate facade file r =
     (if refs r file \<noteq> None then r\<lparr>refs := (refs r)(facade := refs r file)\<rparr> else r)"


section \<open>The two walks of processNode\<close>

text \<open>
  First walk (lines 99-110): the families of every \<^verbatim>\<open>font-family\<close> declaration whose
  enclosing at-rule is named \<^verbatim>\<open>font-family\<close> are added to \<^verbatim>\<open>existingFontFamilies\<close>.
\<close>

definition collectsExisting :: "Declaration \<Rightarrow> bool" where
  "collectsExisting node =
     (atrule node = Some ''font-family'' \<and> property node = ''font-family'')"

fun firstWalk :: "Plugin \<Rightarrow> Declaration list \<Rightarrow> string list \<Rightarrow> string list" where
  "firstWalk p [] existing = existing"
| "firstWalk p (node # rest) existing =
     firstWalk p rest
       (if collectsExisting node
        then fold setAdd (extractFontFamilies (deps p) node) existing
        else existing)"

text \<open>Second walk (lines 112-131). The guard of line 115 returns early.\<close>

definition returnsEarly :: "Plugin \<Rightarrow> Declaration \<Rightarrow> bool" where
  "returnsEarly p node =
     (((property node \<noteq> ''font-family'' \<and> property node \<noteq> ''font'') \<and>
       (\<not> truthy (processCSSVariables (options p)) \<or> \<not> startsWith (property node) ''--''))
      \<or> atrule node = Some ''font-face'')"

text \<open>
  A call of \<^verbatim>\<open>addFontFaceDeclaration\<close> is an asynchronous task. Its program counter says
  at which \<^verbatim>\<open>await\<close> it is suspended: on the resolver (line 42), on
  \<^verbatim>\<open>generateFontFallbacks\<close> for a font (line 63, with the fonts after it), or on esbuild's
  \<^verbatim>\<open>transform\<close> of a declaration (line 70, with the declarations after it, whether the
  font has fallback declarations, and the fonts after it). The local variables
  \<^verbatim>\<open>fallbackMap\<close>, \<^verbatim>\<open>insertFontFamilies\<close> and \<^verbatim>\<open>prefaces\<close> are set when the task is resumed
  after the resolution; a new task holds empty ones.
\<close>

datatype Pc =
    AwaitResolve
  | AwaitFallbacks FontFaceData "FontFaceData list"
  | AwaitTransform string "string list" bool "FontFaceData list"
  | Finished

record Task =
  fontFamily :: string
  fallbackOptions :: "FallbackOptions option"
  pc :: Pc
  fallbackMap :: "(string \<times> string) list"
  insertFontFamilies :: bool
  prefaces :: "string list"

definition newTask :: "string \<Rightarrow> FallbackOptions option \<Rightarrow> Task" where
  "newTask family fo =
     \<lparr>fontFamily = family, fallbackOptions = fo, pc = AwaitResolve,
      fallbackMap = [], insertFontFamilies = False, prefaces = []\<rparr>"

definition parentOffset :: nat where
  "parentOffset = 0"

definition enter :: "Plugin \<Rightarrow> string list \<Rightarrow> Declaration \<Rightarrow> Task option" where
  "enter p existing node =
     (if returnsEarly p node then None
      else case extractFontFamilies (deps p) node of
        [] \<Rightarrow> None
      | family # others \<Rightarrow>
          if family \<noteq> [] \<and> family \<notin> set existing
          then Some (newTask family
                 (if \<not> isRaw (dvalue node)
                  then Some \<lparr>fo_generic = extractGeneric (deps p) node,
                             fo_fallbacks = others,
                             fo_index = map_option (\<lambda>e. e + parentOffset)
                                          (extractEndOfFirstChild (deps p) node)\<rparr>
                  else None))
          else None)"

definition secondWalk :: "Plugin \<Rightarrow> string list \<Rightarrow> Declaration list \<Rightarrow> Task list" where
  "secondWalk p existing ast = List.map_filter (enter p existing) ast"

section \<open>addFontFaceDeclaration as a task\<close>

text \<open>
  The state of one call of \<^verbatim>\<open>transformCSS\<close> that its tasks share: the edit buffer
  (the variable \<^verbatim>\<open>s\<close>), the set \<^verbatim>\<open>injectedDeclarations\<close>, and the preload registry of
  the options.
\<close>

record Rewrite =
  edits :: MagicString
  injectedDeclarations :: "string list"
  fontsToPreload :: Registry

definition dq :: string where
  "dq = [CHR 0x22]"

definition newline :: string where
  "newline = [CHR 0x0A]"

text \<open>Line 42-45: \<^verbatim>\<open>await options.resolveFontFace(fontFamily, {...}) || {}\<close>.\<close>

definition resolved :: "Plugin \<Rightarrow> Task \<Rightarrow> FontFaceResolution" where
  "resolved p t =
     (case resolveFontFace (options p) (fontFamily t)
             \<lparr>ro_fallbacks = (case fallbackOptions t of None \<Rightarrow> [] | Some fo \<Rightarrow> fo_fallbacks fo),
              ro_generic = (case fallbackOptions t of None \<Rightarrow> None | Some fo \<Rightarrow> fo_generic fo)\<rparr> of
        None \<Rightarrow> \<lparr>fonts = None, fallbacks = None\<rparr>
      | Some result \<Rightarrow> result)"

text \<open>Line 49.\<close>

definition makeFallbackMap :: "string \<Rightarrow> FontFaceResolution \<Rightarrow> (string \<times> string) list" where
  "makeFallbackMap family result =
     (case fallbacks result of
        None \<Rightarrow> []
      | Some fs \<Rightarrow> map (\<lambda>f. (f, family @ '' Fallback: '' @ f)) fs)"

fun isRemote :: "FontSource \<Rightarrow> bool" where
  "isRemote (RemoteFontSource _) = True"
| "isRemote (LocalFontSource _) = False"

text \<open>Line 53: the url of the first remote source.\<close>

definition fontToPreload :: "FontFaceData \<Rightarrow> string option" where
  "fontToPreload font =
     (case find isRemote (src font) of
        Some (RemoteFontSource u) \<Rightarrow> Some u
      | _ \<Rightarrow> None)"

text \<open>Lines 52-58.\<close>

definition preload :: "Plugin \<Rightarrow> string \<Rightarrow> string \<Rightarrow> FontFaceData \<Rightarrow> Registry \<Rightarrow> Registry" where
  "preload p ident family font r =
     (if shouldPreload (options p) family font
      then (case fontToPreload font of
              Some u \<Rightarrow> if u \<noteq> [] then recordPreload ident u r else r
            | None \<Rightarrow> r)
      else r)"

text \<open>
  Line 75: \<^verbatim>\<open>.then(r => r.code || declaration).catch(() => declaration)\<close>.
\<close>

definition minified :: "Plugin \<Rightarrow> string \<Rightarrow> string" where
  "minified p declaration =
     (case transform (deps p) declaration (postcssOptions p) of
        Inl _ \<Rightarrow> declaration
      | Inr code \<Rightarrow> if code = [] then declaration else code)"

text \<open>Line 93.\<close>

definition insertedFamilies :: "(string \<times> string) list \<Rightarrow> string" where
  "insertedFamilies fm = join '', '' (map (\<lambda>f. dq @ snd f @ dq) fm)"

text \<open>Lines 90-95, the end of the task.\<close>

definition spliceFamilies :: "Task \<Rightarrow> MagicString \<Rightarrow> MagicString" where
  "spliceFamilies t m =
     (case fallbackOptions t of
        None \<Rightarrow> m
      | Some fo \<Rightarrow>
          if insertFontFamilies t
          then prependLeft (fo_index fo) ('', '' @ insertedFamilies (fallbackMap t)) m
          else m)"

fun finish :: "Rewrite \<times> Task \<Rightarrow> Rewrite \<times> Task" where
  "finish (st, t) =
     (st\<lparr>edits := spliceFamilies t (prepend (concat (prefaces t)) (edits st))\<rparr>, t\<lparr>pc := Finished\<rparr>)"

text \<open>Lines 84-88 and the head of the loop over the fonts.\<close>

fun afterFont :: "bool \<Rightarrow> FontFaceData list \<Rightarrow> Rewrite \<times> Task \<Rightarrow> Rewrite \<times> Task" where
  "afterFont hasFallbacks [] (st, t) =
     finish (st, if hasFallbacks then t\<lparr>insertFontFamilies := True\<rparr> else t)"
| "afterFont hasFallbacks (font # later) (st, t) =
     (st, (if hasFallbacks then t\<lparr>insertFontFamilies := True\<rparr> else t)
            \<lparr>pc := AwaitFallbacks font later\<rparr>)"

text \<open>
  Lines 66-82, the loop over the declarations of one font. It runs until the next
  \<^verbatim>\<open>await transform\<close> (outside development mode) or to the end of the list.
\<close>

fun declarationsLoop ::
  "Plugin \<Rightarrow> bool \<Rightarrow> FontFaceData list \<Rightarrow> string list \<Rightarrow> Rewrite \<times> Task \<Rightarrow> Rewrite \<times> Task" where
  "declarationsLoop p hasFallbacks rest [] x = afterFont hasFallbacks rest x"
| "declarationsLoop p hasFallbacks rest (d # ds) (st, t) =
     (if d \<in> set (injectedDeclarations st)
      then declarationsLoop p hasFallbacks rest ds (st, t)
      else if \<not> truthy (isDev p)
      then (st\<lparr>injectedDeclarations := injectedDeclarations st @ [d]\<rparr>,
            t\<lparr>pc := AwaitTransform d ds hasFallbacks rest\<rparr>)
      else declarationsLoop p hasFallbacks rest ds
             (st\<lparr>injectedDeclarations := injectedDeclarations st @ [d]\<rparr>,
              t\<lparr>prefaces := prefaces t @ [d @ newline]\<rparr>))"

text \<open>Lines 63-64: the declarations generated for one font.\<close>

definition fallbackDeclarations :: "Plugin \<Rightarrow> Task \<Rightarrow> FontFaceData \<Rightarrow> string list" where
  "fallbackDeclarations p t font =
     generateFontFallbacks (deps p) (fontFamily t) font (fallbackMap t)"

definition declarations :: "Plugin \<Rightarrow> string \<Rightarrow> bool \<Rightarrow> Task \<Rightarrow> FontFaceData \<Rightarrow> string list" where
  "declarations p ident relative t font =
     generateFontFace (deps p) (fontFamily t)
       (if relative
        then relativiseFontSources (deps p) font (leadingSlashDirname (deps p) ident)
        else font)
     # fallbackDeclarations p t font"

text \<open>
  One step resumes the task at its \<^verbatim>\<open>await\<close> and runs it to the next one, or to its
  end. Nothing else runs in between: JavaScript is single-threaded.
\<close>

fun step :: "Plugin \<Rightarrow> string \<Rightarrow> bool \<Rightarrow> Rewrite \<times> Task \<Rightarrow> Rewrite \<times> Task" where
  "step p ident relative (st, t) =
     (case pc t of
        AwaitResolve \<Rightarrow>
          (case fonts (resolved p t) of
             None \<Rightarrow> (st, t\<lparr>pc := Finished\<rparr>)
           | Some [] \<Rightarrow> (st, t\<lparr>pc := Finished\<rparr>)
           | Some (font # later) \<Rightarrow>
               (st\<lparr>fontsToPreload := preload p ident (fontFamily t) font (fontsToPreload st)\<rparr>,
                t\<lparr>fallbackMap := makeFallbackMap (fontFamily t) (resolved p t),
                  insertFontFamilies := False,
                  prefaces := [],
                  pc := AwaitFallbacks font later\<rparr>))
      | AwaitFallbacks font later \<Rightarrow>
          declarationsLoop p (fallbackDeclarations p t font \<noteq> []) later
            (declarations p ident relative t font) (st, t)
      | AwaitTransform d ds hasFallbacks later \<Rightarrow>
          declarationsLoop p hasFallbacks later ds
            (st, t\<lparr>prefaces := prefaces t @ [minified p d]\<rparr>)
      | Finished \<Rightarrow> (st, t))"

declare step.simps [simp del]

section \<open>transformCSS\<close>

text \<open>
  The tasks are created in walk order and suspended on the resolver; after the walk,
  \<^verbatim>\<open>await Promise.all(promises)\<close> lets them run, interleaved at their awaits in an order
  the source does not fix. A schedule names the task that is resumed next (an index that
  names no task, or a finished one, resumes nothing). When the schedule is used up the
  tasks still running are run to their end, in order.
\<close>

fun runSchedule ::
  "Plugin \<Rightarrow> string \<Rightarrow> bool \<Rightarrow> nat list \<Rightarrow> Rewrite \<times> Task list \<Rightarrow> Rewrite \<times> Task list" where
  "runSchedule p ident relative [] x = x"
| "runSchedule p ident relative (n # ns) (st, ts) =
     runSchedule p ident relative ns
       (if n < length ts
        then (case step p ident relative (st, ts ! n) of (st', t') \<Rightarrow> (st', ts[n := t']))
        else (st, ts))"

text \<open>A bound on the awaits a task still has before it.\<close>

definition awaitsOfFont :: "Plugin \<Rightarrow> string \<Rightarrow> (string \<times> string) list \<Rightarrow> FontFaceData \<Rightarrow> nat" where
  "awaitsOfFont p family fm font = 2 + length (generateFontFallbacks (deps p) family font fm)"

definition awaitsLeft :: "Plugin \<Rightarrow> Task \<Rightarrow> nat" where
  "awaitsLeft p t =
     (case pc t of
        AwaitResolve \<Rightarrow>
          1 + sum_list (map (awaitsOfFont p (fontFamily t)
                               (makeFallbackMap (fontFamily t) (resolved p t)))
                          (case fonts (resolved p t) of None \<Rightarrow> [] | Some fs \<Rightarrow> fs))
      | AwaitFallbacks font later \<Rightarrow>
          sum_list (map (awaitsOfFont p (fontFamily t) (fallbackMap t)) (font # later))
      | AwaitTransform d ds hasFallbacks later \<Rightarrow>
          1 + length ds + sum_list (map (awaitsOfFont p (fontFamily t) (fallbackMap t)) later)
      | Finished \<Rightarrow> 0)"

fun resumeTimes ::
  "Plugin \<Rightarrow> string \<Rightarrow> bool \<Rightarrow> nat \<Rightarrow> Rewrite \<times> Task \<Rightarrow> Rewrite \<times> Task" where
  "resumeTimes p ident relative 0 x = x"
| "resumeTimes p ident relative (Suc n) x = resumeTimes p ident relative n (step p ident relative x)"

definition runToEnd :: "Plugin \<Rightarrow> string \<Rightarrow> bool \<Rightarrow> Rewrite \<times> Task \<Rightarrow> Rewrite \<times> Task" where
  "runToEnd p ident relative x = resumeTimes p ident relative (awaitsLeft p (snd x)) x"

fun settle :: "Plugin \<Rightarrow> string \<Rightarrow> bool \<Rightarrow> Rewrite \<Rightarrow> Task list \<Rightarrow> Rewrite \<times> Task list" where
  "settle p ident relative st [] = (st, [])"
| "settle p ident relative st (t # ts) =
     (case runToEnd p ident relative (st, t) of
        (st', t') \<Rightarrow>
          (case settle p ident relative st' ts of (st'', ts') \<Rightarrow> (st'', t' # ts')))"

text \<open>
  Lines 29-151. \<open>rewrite\<close> gives the shared state and the tasks when all have settled;
  \<^verbatim>\<open>transformCSS\<close> returns the buffer (and the registry it has changed).
\<close>

definition rewrite ::
  "Plugin \<Rightarrow> nat list \<Rightarrow> string \<Rightarrow> string \<Rightarrow> bool \<Rightarrow> Registry \<Rightarrow> Rewrite \<times> Task list" where
  "rewrite p schedule code ident relative registry =
     (let ast = parse (deps p) code;
          existingFontFamilies = firstWalk p ast [];
          promises = secondWalk p existingFontFamilies ast
      in case runSchedule p ident relative schedule
                (\<lparr>edits = newMagicString code, injectedDeclarations = [],
                  fontsToPreload = registry\<rparr>, promises) of
           (st, tasks) \<Rightarrow> settle p ident relative st tasks)"

definition transformCSS ::
  "Plugin \<Rightarrow> nat list \<Rightarrow> string \<Rightarrow> string \<Rightarrow> bool \<Rightarrow> Registry \<Rightarrow> MagicString \<times> Registry" where
  "transformCSS p schedule code ident relative registry =
     (case rewrite p schedule code ident relative registry of
        (st, promises) \<Rightarrow> (edits st, fontsToPreload st))"

section \<open>generateBundle\<close>

text \<open>
  \<^verbatim>\<open>IS_CSS_RE = /\.(?:css|scss|sass|postcss|pcss|less|stylus|styl)(?:\?[^.]+)?$/\<close>: some
  suffix of the name is a dot and one of the extensions, followed by nothing or by a
  question mark and one or several characters that are not dots.
\<close>

definition cssExtensions :: "string list" where
  "cssExtensions = [''css'', ''scss'', ''sass'', ''postcss'', ''pcss'', ''less'', ''stylus'', ''styl'']"

definition queryOrEnd :: "string \<Rightarrow> bool" where
  "queryOrEnd rest =
     (case rest of
        [] \<Rightarrow> True
      | c # q \<Rightarrow> c = CHR ''?'' \<and> q \<noteq> [] \<and> CHR ''.'' \<notin> set q)"

definition matchesHere :: "string \<Rightarrow> bool" where
  "matchesHere str =
     list_ex (\<lambda>ext. startsWith str (''.'' @ ext) \<and> queryOrEnd (drop (Suc (length ext)) str))
       cssExtensions"

definition isCSS :: "string \<Rightarrow> bool" where
  "isCSS ident = list_ex matchesHere (suffixes ident)"

datatype Output = OutputAsset string string | OutputChunk string

text \<open>
  One round of the loop of lines 181-189. The rewrites of a bundle run one after the
  other (the loop awaits each); every asset has its own schedule.
\<close>

definition handleOutput ::
  "Plugin \<Rightarrow> nat list \<Rightarrow> string \<Rightarrow> Output \<Rightarrow> Registry \<Rightarrow> Output \<times> Registry" where
  "handleOutput p schedule key chunk registry =
     (case chunk of
        OutputAsset fileName source \<Rightarrow>
          if isCSS fileName
          then (case transformCSS p schedule source key True registry of
                  (s, registry') \<Rightarrow>
                    (if hasChanged s then OutputAsset fileName (toString s) else chunk,
                     registry'))
          else (chunk, registry)
      | OutputChunk _ \<Rightarrow> (chunk, registry))"

fun generateBundle ::
  "Plugin \<Rightarrow> (string \<Rightarrow> nat list) \<Rightarrow> (string \<times> Output) list \<Rightarrow> Registry
     \<Rightarrow> (string \<times> Output) list \<times> Registry" where
  "generateBundle p schedules [] registry = ([], registry)"
| "generateBundle p schedules ((key, chunk) # rest) registry =
     (case handleOutput p (schedules key) key chunk registry of
        (chunk', registry') \<Rightarrow>
          (case generateBundle p schedules rest registry' of
             (rest', registry'') \<Rightarrow> ((key, chunk') # rest', registry'')))"

section \<open>What a task can reach\<close>

text \<open>
  The states a task goes through when it is resumed from shared states that satisfy
  \<open>P\<close>: between two of its steps the other tasks may have changed the shared state in
  any way that keeps \<open>P\<close>.
\<close>

inductive reaches ::
  "(Rewrite \<Rightarrow> bool) \<Rightarrow> Plugin \<Rightarrow> string \<Rightarrow> bool \<Rightarrow> Task \<Rightarrow> Task \<Rightarrow> bool"
  for P p ident relative t0 where
  start: "reaches P p ident relative t0 t0"
| resume: "reaches P p ident relative t0 t \<Longrightarrow> P st \<Longrightarrow>
           reaches P p ident relative t0 (snd (step p ident relative (st, t)))"

section \<open>Invariants\<close>

text \<open>
  The buffer still holds the text it was made from, and nothing is anchored at offset 0
  of a non-empty text (\<^verbatim>\<open>prependLeft(0, ...)\<close> goes to the intro).
\<close>

definition keeps :: "string \<Rightarrow> MagicString \<Rightarrow> bool" where
  "keeps code m = (original m = code \<and> (code \<noteq> [] \<longrightarrow> outro m 0 = []))"

text \<open>
  What is queued for a generated declaration (lines 69-80): the minified text, or in
  development mode the declaration and a newline. \<open>queuedBy\<close> counts what a task has
  queued so far, together with the declaration it has marked injected and is minifying.
\<close>

definition emitted :: "Plugin \<Rightarrow> string \<Rightarrow> string" where
  "emitted p d = (if truthy (isDev p) then d @ newline else minified p d)"

definition queuedBy :: "Plugin \<Rightarrow> Task \<Rightarrow> string multiset" where
  "queuedBy p t =
     mset (prefaces t) +
     (case pc t of AwaitTransform d ds h later \<Rightarrow> {#emitted p d#} | _ \<Rightarrow> {#})"

definition wellFormed :: "Plugin \<Rightarrow> Task \<Rightarrow> bool" where
  "wellFormed p t =
     ((case pc t of
         AwaitResolve \<Rightarrow> prefaces t = [] \<and> \<not> insertFontFamilies t
       | AwaitTransform d ds h later \<Rightarrow> \<not> truthy (isDev p)
       | _ \<Rightarrow> True))"

text \<open>
  What a finished task has put in front of the stylesheet: its queued declarations, and
  in front of them the fallback names when their offset is one magic-string does not
  anchor.
\<close>

definition contribution :: "string \<Rightarrow> Task \<Rightarrow> string" where
  "contribution code t =
     (case fallbackOptions t of
        None \<Rightarrow> []
      | Some fo \<Rightarrow>
          if insertFontFamilies t \<and> \<not> anchored (newMagicString code) (fo_index fo)
          then '', '' @ insertedFamilies (fallbackMap t)
          else [])
     @ concat (prefaces t)"

text \<open>
  Whether some font of a list has fallback declarations (line 85), and what the local
  variables of a task that was created as \<open>t0\<close> hold at each await: the fallback map is
  the one built after the resolution, and \<^verbatim>\<open>insertFontFamilies\<close> together with the fonts
  still to come decides \<open>g\<close>, whether some font of the resolution has fallback
  declarations.
\<close>

definition anyFallbacks ::
  "Plugin \<Rightarrow> string \<Rightarrow> (string \<times> string) list \<Rightarrow> FontFaceData list \<Rightarrow> bool" where
  "anyFallbacks p family fm fs =
     list_ex (\<lambda>font. generateFontFallbacks (deps p) family font fm \<noteq> []) fs"

definition tracks ::
  "Plugin \<Rightarrow> Task \<Rightarrow> (string \<times> string) list \<Rightarrow> bool \<Rightarrow> Task \<Rightarrow> bool" where
  "tracks p t0 fm g t =
     (fontFamily t = fontFamily t0 \<and> fallbackOptions t = fallbackOptions t0 \<and>
      (case pc t of
         AwaitResolve \<Rightarrow> True
       | AwaitFallbacks font later \<Rightarrow>
           fallbackMap t = fm \<and>
           g = (insertFontFamilies t \<or> anyFallbacks p (fontFamily t0) fm (font # later))
       | AwaitTransform d ds h later \<Rightarrow>
           fallbackMap t = fm \<and>
           g = (insertFontFamilies t \<or> h \<or> anyFallbacks p (fontFamily t0) fm later)
       | Finished \<Rightarrow> fallbackMap t = fm \<and> g = insertFontFamilies t))"

text \<open>
  All declarations a task generates (lines 63-64, over the fonts of its resolution), and
  the states of a task that has queued nothing and awaits no transform.
\<close>

definition generated :: "Plugin \<Rightarrow> string \<Rightarrow> bool \<Rightarrow> Task \<Rightarrow> string list" where
  "generated p ident relative t0 =
     (case fonts (resolved p t0) of
        None \<Rightarrow> []
      | Some fs \<Rightarrow>
          concat (map (declarations p ident relative
                         (t0\<lparr>fallbackMap := makeFallbackMap (fontFamily t0) (resolved p t0)\<rparr>))
                    fs))"

definition quiet :: "Plugin \<Rightarrow> Task \<Rightarrow> Task \<Rightarrow> bool" where
  "quiet p t0 t =
     (case pc t of
        AwaitResolve \<Rightarrow> True
      | AwaitFallbacks font later \<Rightarrow>
          prefaces t = [] \<and> set (font # later) \<subseteq> set (the (fonts (resolved p t0)))
      | AwaitTransform d ds h later \<Rightarrow> False
      | Finished \<Rightarrow> prefaces t = [])"

text \<open>
  A task that runs on its own from a state where it awaits fonts. The declarations that
  pass the check of line 67, in the order they are handled: a declaration passes when it
  is not among those injected before it, the earlier ones of the same task included
  (line 68 adds each one that passes). \<open>settled\<close> is the state after lines 62-95 when these
  have been queued, and \<open>outcome\<close> the state in which a task that is suspended after its
  resolution ends.
\<close>

fun unseen :: "string list \<Rightarrow> string list \<Rightarrow> string list" where
  "unseen injected [] = []"
| "unseen injected (d # ds) =
     (if d \<in> set injected then unseen injected ds else d # unseen (injected @ [d]) ds)"

definition settled :: "Plugin \<Rightarrow> bool \<Rightarrow> string list \<Rightarrow> Rewrite \<times> Task \<Rightarrow> Rewrite \<times> Task" where
  "settled p g ds x =
     finish
       ((fst x)\<lparr>injectedDeclarations :=
                  injectedDeclarations (fst x) @ unseen (injectedDeclarations (fst x)) ds\<rparr>,
        (snd x)\<lparr>prefaces :=
                  prefaces (snd x) @ map (emitted p) (unseen (injectedDeclarations (fst x)) ds),
                insertFontFamilies := g\<rparr>)"

definition outcome :: "Plugin \<Rightarrow> string \<Rightarrow> bool \<Rightarrow> Rewrite \<times> Task \<Rightarrow> Rewrite \<times> Task" where
  "outcome p ident relative x =
     (case pc (snd x) of
        AwaitFallbacks font later \<Rightarrow>
          settled p
            (insertFontFamilies (snd x)
             \<or> anyFallbacks p (fontFamily (snd x)) (fallbackMap (snd x)) (font # later))
            (concat (map (declarations p ident relative (snd x)) (font # later))) x
      | AwaitTransform d ds h later \<Rightarrow>
          settled p
            (insertFontFamilies (snd x) \<or> h
             \<or> anyFallbacks p (fontFamily (snd x)) (fallbackMap (snd x)) later)
            (ds @ concat (map (declarations p ident relative (snd x)) later))
            (fst x, (snd x)\<lparr>prefaces := prefaces (snd x) @ [minified p d]\<rparr>)
      | _ \<Rightarrow> x)"

section \<open>A concrete plugin\<close>

text \<open>
  A resolver that knows the family Foo (one font with a local and a remote source, one
  fallback font, Arial), generators that write small rules, and a parser that knows
  three stylesheets. They are used to run the definitions on concrete inputs.
\<close>

definition fooFont :: FontFaceData where
  "fooFont = \<lparr>src = [LocalFontSource ''Foo'', RemoteFontSource ''/fonts/foo.woff2''],
              descriptors = ''font-weight:400''\<rparr>"

definition fooList :: string where
  \<open>fooList = ''"Foo", sans-serif''\<close>

definition fooOnly :: string where
  \<open>fooOnly = ''"Foo"''\<close>

definition twiceCss :: string where
  \<open>twiceCss = ''a{font-family:"Foo", sans-serif}b{font-family:"Foo", sans-serif}''\<close>

definition twiceAst :: "Declaration list" where
  "twiceAst =
     [\<lparr>property = ''font-family'', atrule = None, dvalue = Value fooList 14\<rparr>,
      \<lparr>property = ''font-family'', atrule = None, dvalue = Value fooList 46\<rparr>]"

definition declaredCss :: string where
  \<open>declaredCss = ''@font-face{font-family:"Foo"}a{font-family:"Foo"}''\<close>

definition declaredAst :: "Declaration list" where
  "declaredAst =
     [\<lparr>property = ''font-family'', atrule = Some ''font-face'', dvalue = Value fooOnly 23\<rparr>,
      \<lparr>property = ''font-family'', atrule = None, dvalue = Value fooOnly 43\<rparr>]"

definition variableCss :: string where
  \<open>variableCss = ''a{--f:"Foo"}''\<close>

definition variableAst :: "Declaration list" where
  "variableAst = [\<lparr>property = ''--f'', atrule = None, dvalue = Raw fooOnly\<rparr>]"

definition valueText :: "CssValue \<Rightarrow> string" where
  "valueText v = (case v of Raw x \<Rightarrow> x | Value x k \<Rightarrow> x)"

definition fooOptions :: FontlessOptions where
  "fooOptions =
     \<lparr>resolveFontFace =
        (\<lambda>family ro. if family = ''Foo''
                      then Some \<lparr>fonts = Some [fooFont], fallbacks = Some [''Arial'']\<rparr>
                      else None),
      processCSSVariables = None,
      shouldPreload = (\<lambda>family font. True)\<rparr>"

definition fooImports :: Imports where
  "fooImports =
     \<lparr>parse = (\<lambda>code. if code = twiceCss then twiceAst
                       else if code = declaredCss then declaredAst
                       else if code = variableCss then variableAst
                       else []),
      extractFontFamilies =
        (\<lambda>node. if valueText (dvalue node) = fooList then [''Foo'', ''sans-serif'']
                 else if valueText (dvalue node) = fooOnly then [''Foo'']
                 else []),
      extractGeneric =
        (\<lambda>node. if valueText (dvalue node) = fooList then Some ''sans-serif'' else None),
      extractEndOfFirstChild =
        (\<lambda>node. case dvalue node of Raw x \<Rightarrow> None | Value x k \<Rightarrow> Some (k + 5)),
      generateFontFace =
        (\<lambda>family font. ''@font-face{font-family:'' @ family @ '';src:url(/fonts/foo.woff2)}''),
      generateFontFallbacks =
        (\<lambda>family font fm.
           map (\<lambda>f. ''@font-face{font-family:'' @ snd f @ '';src:local('' @ fst f @ '')}'') fm),
      relativiseFontSources = (\<lambda>font dir. font),
      leadingSlashDirname = (\<lambda>ident. ''/assets''),
      transform =
        (\<lambda>code opts. if take 22 code = ''@font-face{font-family'' \<and> length code < 60
                      then Inr (''/*min*/'' @ code)
                      else Inl ''esbuild: transform failed'')\<rparr>"

definition devPlugin :: Plugin where
  "devPlugin = \<lparr>options = fooOptions, deps = fooImports, isDev = Some True, postcssOptions = None\<rparr>"

definition buildPlugin :: Plugin where
  "buildPlugin = \<lparr>options = fooOptions, deps = fooImports, isDev = Some False, postcssOptions = None\<rparr>"

definition variablesPlugin :: Plugin where
  "variablesPlugin =
     \<lparr>options = fooOptions\<lparr>processCSSVariables := Some True\<rparr>, deps = fooImports,
      isDev = Some True, postcssOptions = None\<rparr>"

definition emptyRegistry :: Registry where
  "emptyRegistry = \<lparr>refs = (\<lambda>k. None), cells = (\<lambda>a. []), fresh = 0\<rparr>"


definition startState :: "string \<Rightarrow> Rewrite" where
  "startState code =
     \<lparr>edits = newMagicString code, injectedDeclarations = [], fontsToPreload = emptyRegistry\<rparr>"

text \<open>
  The two tasks of the stylesheet with two identical declarations, in development mode:
  the first task after its resolution, and the second task after its resolution when the
  first has finished.
\<close>

definition firstTask :: Task where
  "firstTask =
     newTask ''Foo'' (Some \<lparr>fo_generic = Some ''sans-serif'', fo_fallbacks = [''sans-serif''],
                             fo_index = Some 19\<rparr>)"

definition firstResolved :: "Rewrite \<times> Task" where
  "firstResolved = step devPlugin ''a.css'' True (startState twiceCss, firstTask)"

definition secondTask :: Task where
  "secondTask =
     newTask ''Foo'' (Some \<lparr>fo_generic = Some ''sans-serif'', fo_fallbacks = [''sans-serif''],
                             fo_index = Some 51\<rparr>)"

definition secondResolved :: "Rewrite \<times> Task" where
  "secondResolved =
     step devPlugin ''a.css'' True (fst (step devPlugin ''a.css'' True firstResolved), secondTask)"

text \<open>
  The task of the custom property of the third stylesheet, whose value is a raw stream,
  and the task of the second declaration of the stylesheet that declares Foo itself.
\<close>

definition rawTask :: Task where
  "rawTask = newTask ''Foo'' None"

definition lateTask :: Task where
  "lateTask = newTask ''Foo'' (Some \<lparr>fo_generic = None, fo_fallbacks = [], fo_index = Some 48\<rparr>)"

section \<open>Properties of the edit buffer\<close>

lemma render_nothing: "render (\<lambda>_. []) k cs = cs"
  by (induction cs arbitrary: k) auto

lemma toString_new: "toString (newMagicString code) = code"
  by (simp add: toString_def newMagicString_def render_nothing)

lemma not_changed_new: "\<not> hasChanged (newMagicString code)"
  by (simp add: hasChanged_def toString_new) (simp add: newMagicString_def)

lemma render_split:
  "k \<le> length cs \<Longrightarrow> render f j cs = renderBefore f j (take k cs) @ render f (j + k) (drop k cs)"
proof (induction cs arbitrary: j k)
  case Nil
  then show ?case by simp
next
  case (Cons c cs)
  show ?case
  proof (cases k)
    case 0
    then show ?thesis by simp
  next
    case (Suc n)
    with Cons.prems have "n \<le> length cs" by simp
    from Cons.IH [OF this, of "Suc j"] Suc show ?thesis by simp
  qed
qed

lemma render_at:
  "k < length cs \<Longrightarrow>
   render f 0 cs = renderBefore f 0 (take k cs) @ f k @ cs ! k # render f (Suc k) (drop (Suc k) cs)"
proof -
  assume k: "k < length cs"
  then have "drop k cs = cs ! k # drop (Suc k) cs"
    by (simp add: Cons_nth_drop_Suc)
  with render_split [of k cs f 0] k show ?thesis by simp
qed

lemma subseq_render: "subseq cs (render f k cs)"
proof (induction cs arbitrary: k)
  case Nil
  then show ?case by simp
next
  case (Cons c cs)
  have "subseq (c # cs) (c # render f (Suc k) cs)"
    using Cons.IH by simp
  then have "subseq (c # cs) (f k @ c # render f (Suc k) cs)"
    by (rule list_emb_append2)
  then show ?case by simp
qed

lemma subseq_toString: "subseq (original m) (toString m)"
  unfolding toString_def by (rule list_emb_append2) (rule subseq_render)

lemma renderBefore_cong:
  "(\<And>i. j \<le> i \<Longrightarrow> i < j + length cs \<Longrightarrow> f i = g i) \<Longrightarrow> renderBefore f j cs = renderBefore g j cs"
proof (induction cs arbitrary: j)
  case Nil
  then show ?case by simp
next
  case (Cons c cs)
  have "f j = g j" using Cons.prems [of j] by simp
  moreover have "renderBefore f (Suc j) cs = renderBefore g (Suc j) cs"
    by (rule Cons.IH) (use Cons.prems in auto)
  ultimately show ?case by simp
qed

lemma render_cong:
  "(\<And>i. j \<le> i \<Longrightarrow> f i = g i) \<Longrightarrow> render f j cs = render g j cs"
proof (induction cs arbitrary: j)
  case Nil
  then show ?case by simp
next
  case (Cons c cs)
  have "f j = g j" using Cons.prems [of j] by simp
  moreover have "render f (Suc j) cs = render g (Suc j) cs"
    by (rule Cons.IH) (use Cons.prems in auto)
  ultimately show ?case by simp
qed

lemma toString_prependLeft:
  assumes "k \<le> length (original m)" and "0 < k \<or> original m = []"
  shows "toString m = intro m @ renderBefore (outro m) 0 (take k (original m))
                        @ render (outro m) k (drop k (original m))"
    and "toString (prependLeft (Some k) content m) =
           intro m @ renderBefore (outro m) 0 (take k (original m))
             @ content @ render (outro m) k (drop k (original m))"
proof -
  let ?f = "outro m" and ?cs = "original m"
  let ?g = "?f(k := content @ ?f k)"
  show "toString m = intro m @ renderBefore ?f 0 (take k ?cs) @ render ?f k (drop k ?cs)"
    using render_split [OF assms(1), of ?f 0] by (simp add: toString_def)
  have anch: "anchored m (Some k)"
    using assms by (simp add: anchored_def)
  have "render ?g 0 ?cs = renderBefore ?g 0 (take k ?cs) @ render ?g k (drop k ?cs)"
    using render_split [OF assms(1), of ?g 0] by simp
  moreover have "renderBefore ?g 0 (take k ?cs) = renderBefore ?f 0 (take k ?cs)"
    by (rule renderBefore_cong) (use assms(1) in auto)
  moreover have "render ?g k (drop k ?cs) = content @ render ?f k (drop k ?cs)"
  proof (cases "drop k ?cs")
    case Nil
    then show ?thesis by simp
  next
    case (Cons c cs')
    have "render ?g (Suc k) cs' = render ?f (Suc k) cs'"
      by (rule render_cong) simp
    with Cons show ?thesis by simp
  qed
  ultimately show "toString (prependLeft (Some k) content m) =
      intro m @ renderBefore ?f 0 (take k ?cs) @ content @ render ?f k (drop k ?cs)"
    using anch by (simp add: toString_def prependLeft_def)
qed

section \<open>The candidate walk\<close>

lemma secondWalk_append:
  "secondWalk p existing (xs @ ys) = secondWalk p existing xs @ secondWalk p existing ys"
  by (simp add: secondWalk_def List.map_filter_def)

lemma secondWalk_skips:
  assumes "enter p existing node = None"
  shows "secondWalk p existing (before @ node # after) = secondWalk p existing (before @ after)"
proof -
  have "secondWalk p existing [node] = []"
    using assms by (simp add: secondWalk_def List.map_filter_def)
  then show ?thesis
    using secondWalk_append [of p existing before "[node] @ after"]
      secondWalk_append [of p existing "[node]" after]
      secondWalk_append [of p existing before after] by simp
qed

lemma secondWalk_schedules:
  assumes "enter p existing node = Some t"
  shows "secondWalk p existing (before @ node # after)
           = secondWalk p existing before @ t # secondWalk p existing after"
proof -
  have "secondWalk p existing [node] = [t]"
    using assms by (simp add: secondWalk_def List.map_filter_def)
  then show ?thesis
    using secondWalk_append [of p existing before "[node] @ after"]
      secondWalk_append [of p existing "[node]" after] by simp
qed

text \<open>
  Claim C7. The second walk schedules a resolution for a declaration exactly when its
  property is \<^verbatim>\<open>font-family\<close> or \<^verbatim>\<open>font\<close>, or custom-property processing is enabled and
  the property starts with \<^verbatim>\<open>--\<close>; it is not inside an \<^verbatim>\<open>@font-face\<close> rule; and its first
  extracted family is non-empty and not in the existing-family set. Then the task of the
  declaration, suspended on the resolver for that first family, stands among the tasks of
  the walk (the ones \<open>rewrite\<close> runs) at the declaration's place. Otherwise the
  declaration schedules nothing: the tasks of the walk are those of the stylesheet without
  it, and only tasks change the buffer, the injected set or the registry.
\<close>

theorem enter_schedules_iff:
  "((\<exists>t. enter p existing node = Some t) \<longleftrightarrow>
     ((property node = ''font-family'' \<or> property node = ''font'' \<or>
        (processCSSVariables (options p) = Some True \<and> startsWith (property node) ''--''))
      \<and> atrule node \<noteq> Some ''font-face''
      \<and> (case extractFontFamilies (deps p) node of
            [] \<Rightarrow> False
          | family # others \<Rightarrow> family \<noteq> [] \<and> family \<notin> set existing)))
   \<and> (enter p existing node = None \<longrightarrow>
        secondWalk p existing (before @ node # after) = secondWalk p existing (before @ after))
   \<and> (\<forall>t. enter p existing node = Some t \<longrightarrow>
          pc t = AwaitResolve
          \<and> fontFamily t = hd (extractFontFamilies (deps p) node)
          \<and> secondWalk p existing (before @ node # after)
              = secondWalk p existing before @ t # secondWalk p existing after)"
proof (intro conjI)
  show "(\<exists>t. enter p existing node = Some t) \<longleftrightarrow>
     ((property node = ''font-family'' \<or> property node = ''font'' \<or>
        (processCSSVariables (options p) = Some True \<and> startsWith (property node) ''--''))
      \<and> atrule node \<noteq> Some ''font-face''
      \<and> (case extractFontFamilies (deps p) node of
            [] \<Rightarrow> False
          | family # others \<Rightarrow> family \<noteq> [] \<and> family \<notin> set existing))"
    by (auto simp: enter_def returnsEarly_def truthy_def split: list.splits)
next
  show "enter p existing node = None \<longrightarrow>
        secondWalk p existing (before @ node # after) = secondWalk p existing (before @ after)"
    by (simp add: secondWalk_skips)
next
  have "pc t = AwaitResolve \<and> fontFamily t = hd (extractFontFamilies (deps p) node)"
    if "enter p existing node = Some t" for t
    using that by (auto simp: enter_def newTask_def split: if_splits list.splits)
  then show "\<forall>t. enter p existing node = Some t \<longrightarrow>
          pc t = AwaitResolve
          \<and> fontFamily t = hd (extractFontFamilies (deps p) node)
          \<and> secondWalk p existing (before @ node # after)
              = secondWalk p existing before @ t # secondWalk p existing after"
    by (simp add: secondWalk_schedules)
qed

lemmas demo_defs = devPlugin_def buildPlugin_def variablesPlugin_def fooOptions_def fooImports_def
  fooFont_def fooList_def fooOnly_def twiceCss_def twiceAst_def declaredCss_def declaredAst_def
  variableCss_def variableAst_def valueText_def emptyRegistry_def

theorem enter_schedules_iff_witness:
  "(\<exists>t. enter devPlugin [] (twiceAst ! 0) = Some t)
   \<and> enter devPlugin [''Foo''] (twiceAst ! 0) = None
   \<and> secondWalk devPlugin [''Foo''] ([twiceAst ! 1] @ twiceAst ! 0 # [])
       = secondWalk devPlugin [''Foo''] ([twiceAst ! 1] @ [])
   \<and> secondWalk devPlugin [] ([] @ twiceAst ! 0 # [twiceAst ! 1]) = [firstTask, secondTask]"
proof -
  have none: "enter devPlugin [''Foo''] (twiceAst ! 0) = None"
    by (simp add: enter_def returnsEarly_def demo_defs)
  have ex: "\<exists>t. enter devPlugin [] (twiceAst ! 0) = Some t"
    using enter_schedules_iff [of devPlugin "[]" "twiceAst ! 0" "[]" "[]"]
    by (simp add: demo_defs)
  have first: "enter devPlugin [] (twiceAst ! 0) = Some firstTask"
    and second: "enter devPlugin [] (twiceAst ! 1) = Some secondTask"
    by (simp_all add: enter_def returnsEarly_def firstTask_def secondTask_def parentOffset_def
        demo_defs)
  have empty: "secondWalk devPlugin [] [] = []"
    by (simp add: secondWalk_def List.map_filter_def)
  have "secondWalk devPlugin [] ([] @ twiceAst ! 1 # [])
          = secondWalk devPlugin [] [] @ secondTask # secondWalk devPlugin [] []"
    using second enter_schedules_iff [of devPlugin "[]" "twiceAst ! 1" "[]" "[]"] by blast
  then have one: "secondWalk devPlugin [] [twiceAst ! 1] = [secondTask]"
    by (simp only: empty append_Nil)
  have "secondWalk devPlugin [] ([] @ twiceAst ! 0 # [twiceAst ! 1])
          = secondWalk devPlugin [] [] @ firstTask # secondWalk devPlugin [] [twiceAst ! 1]"
    using first enter_schedules_iff [of devPlugin "[]" "twiceAst ! 0" "[]" "[twiceAst ! 1]"] by blast
  then have two: "secondWalk devPlugin [] ([] @ twiceAst ! 0 # [twiceAst ! 1]) = [firstTask, secondTask]"
    by (simp only: empty one append_Nil)
  show ?thesis
    using ex none two
      enter_schedules_iff [of devPlugin "[''Foo'']" "twiceAst ! 0" "[twiceAst ! 1]" "[]"]
    by blast
qed

section \<open>Single steps of a task\<close>

text \<open>
  Claim C5. When the resolver returns nothing for the family of a task, or a result
  without fonts, or with an empty font list, resuming the task ends it and leaves the
  shared state as it was: nothing is prepended to the buffer, nothing is inserted into the
  declaration, nothing is added to the injected set and no preload entry is recorded. A
  finished task does nothing when it is resumed again.
\<close>

theorem no_fonts_no_output:
  assumes "pc t = AwaitResolve"
    and "resolveFontFace (options p) (fontFamily t)
           \<lparr>ro_fallbacks = (case fallbackOptions t of None \<Rightarrow> [] | Some fo \<Rightarrow> fo_fallbacks fo),
            ro_generic = (case fallbackOptions t of None \<Rightarrow> None | Some fo \<Rightarrow> fo_generic fo)\<rparr> = r"
    and "r = None \<or> (\<exists>res. r = Some res \<and> (fonts res = None \<or> fonts res = Some []))"
  shows "step p ident relative (st, t) = (st, t\<lparr>pc := Finished\<rparr>)
         \<and> step p ident relative (st', t\<lparr>pc := Finished\<rparr>) = (st', t\<lparr>pc := Finished\<rparr>)"
  using assms by (auto simp: step.simps resolved_def)

theorem no_fonts_no_output_witness:
  "step devPlugin ''a.css'' True (startState twiceCss, newTask ''Bar'' None)
   = (startState twiceCss, (newTask ''Bar'' None)\<lparr>pc := Finished\<rparr>)"
proof -
  have a: "pc (newTask ''Bar'' None) = AwaitResolve"
    by (simp add: newTask_def)
  have b: "resolveFontFace (options devPlugin) (fontFamily (newTask ''Bar'' None))
           \<lparr>ro_fallbacks = (case fallbackOptions (newTask ''Bar'' None) of None \<Rightarrow> [] | Some fo \<Rightarrow> fo_fallbacks fo),
            ro_generic = (case fallbackOptions (newTask ''Bar'' None) of None \<Rightarrow> None | Some fo \<Rightarrow> fo_generic fo)\<rparr> = None"
    by (simp add: newTask_def devPlugin_def fooOptions_def)
  show ?thesis
    using no_fonts_no_output [OF a b, of "''a.css''" True] by simp
qed

text \<open>
  Claim C6. For a generated declaration that is not yet in the injected set: outside
  development mode the task marks it injected and awaits esbuild's transform; resumed, it
  queues the minified code, or the declaration as it is when the transform failed (or
  gave no code), and goes on with the remaining declarations. In development mode nothing
  is awaited: the declaration followed by a newline is queued at once.
\<close>

theorem minified_or_newline:
  assumes "d \<notin> set (injectedDeclarations st)"
  shows "(isDev p \<noteq> Some True \<longrightarrow>
            declarationsLoop p h later (d # ds) (st, t)
              = (st\<lparr>injectedDeclarations := injectedDeclarations st @ [d]\<rparr>,
                 t\<lparr>pc := AwaitTransform d ds h later\<rparr>)
            \<and> step p ident relative (st', t\<lparr>pc := AwaitTransform d ds h later\<rparr>)
              = declarationsLoop p h later ds
                  (st', t\<lparr>pc := AwaitTransform d ds h later,
                         prefaces := prefaces t @
                           [case transform (deps p) d (postcssOptions p) of
                              Inl failure \<Rightarrow> d
                            | Inr code \<Rightarrow> if code = [] then d else code]\<rparr>))
         \<and> (isDev p = Some True \<longrightarrow>
              declarationsLoop p h later (d # ds) (st, t)
                = declarationsLoop p h later ds
                    (st\<lparr>injectedDeclarations := injectedDeclarations st @ [d]\<rparr>,
                     t\<lparr>prefaces := prefaces t @ [d @ [CHR 0x0A]]\<rparr>))"
  using assms by (simp add: step.simps truthy_def minified_def newline_def)


theorem minified_or_newline_witness:
  "declarationsLoop buildPlugin False [] [''x'', ''y''] (startState twiceCss, newTask ''Foo'' None)
     = ((startState twiceCss)\<lparr>injectedDeclarations := [''x'']\<rparr>,
        (newTask ''Foo'' None)\<lparr>pc := AwaitTransform ''x'' [''y''] False []\<rparr>)
   \<and> step buildPlugin ''a.css'' True
        (startState twiceCss, (newTask ''Foo'' None)\<lparr>pc := AwaitTransform ''x'' [''y''] False []\<rparr>)
     = declarationsLoop buildPlugin False [] [''y'']
         (startState twiceCss,
          (newTask ''Foo'' None)\<lparr>pc := AwaitTransform ''x'' [''y''] False [], prefaces := [''x'']\<rparr>)
   \<and> declarationsLoop devPlugin False [] [''x'', ''y''] (startState twiceCss, newTask ''Foo'' None)
     = declarationsLoop devPlugin False [] [''y'']
         ((startState twiceCss)\<lparr>injectedDeclarations := [''x'']\<rparr>,
          (newTask ''Foo'' None)\<lparr>prefaces := [[CHR ''x'', CHR 0x0A]]\<rparr>)"
proof -
  have fresh: "''x'' \<notin> set (injectedDeclarations (startState twiceCss))"
    by (simp add: startState_def)
  have build: "isDev buildPlugin \<noteq> Some True" and dev: "isDev devPlugin = Some True"
    by (simp_all add: buildPlugin_def devPlugin_def)
  have fails: "transform (deps buildPlugin) ''x'' (postcssOptions buildPlugin)
                 = Inl ''esbuild: transform failed''"
    by (simp add: buildPlugin_def fooImports_def)
  have nothing: "prefaces (newTask ''Foo'' None) = []"
    "injectedDeclarations (startState twiceCss) = []"
    by (simp_all add: newTask_def startState_def)
  show ?thesis
    using minified_or_newline [OF fresh, of buildPlugin False "[]" "[''y'']"
        "newTask ''Foo'' None" "''a.css''" True "startState twiceCss"]
      minified_or_newline [OF fresh, of devPlugin False "[]" "[''y'']"
        "newTask ''Foo'' None" "''a.css''" True "startState twiceCss"]
      build dev
    by (simp del: declarationsLoop.simps add: fails newTask_def startState_def)
qed

section \<open>The first walk\<close>

lemma firstWalk_ignores:
  "\<forall>node \<in> set ast. atrule node \<noteq> Some ''font-family'' \<Longrightarrow> firstWalk p ast existing = existing"
  by (induction ast arbitrary: existing) (auto simp: collectsExisting_def)

text \<open>
  Claim C1, evaluated on the code. The stylesheet declares Foo in an \<^verbatim>\<open>@font-face\<close> rule
  and then uses it. The first walk tests the at-rule's name against \<^verbatim>\<open>font-family\<close>, so
  it collects nothing; the second walk schedules Foo, and the output has a new
  \<^verbatim>\<open>@font-face\<close> rule for Foo in front of the one that was there.
\<close>

theorem declared_family_resolved_again:
  \<open>firstWalk buildPlugin (parse (deps buildPlugin) declaredCss) [] = []
   \<and> map fontFamily (secondWalk buildPlugin [] (parse (deps buildPlugin) declaredCss)) = [''Foo'']
   \<and> toString (fst (transformCSS buildPlugin [] declaredCss ''style.css'' True emptyRegistry))
     = ''/*min*/@font-face{font-family:Foo;src:url(/fonts/foo.woff2)}''
       @ ''@font-face{font-family:Foo Fallback: Arial;src:local(Arial)}''
       @ ''@font-face{font-family:"Foo"}a{font-family:"Foo", "Foo Fallback: Arial"}''\<close>
  by code_simp

section \<open>Properties of the preload registry\<close>


lemma refs_recordPreload_same: "refs (recordPreload ident u r) ident \<noteq> None"
  by (simp add: recordPreload_def split: option.splits)

text \<open>
  After a propagation the facade's key and the module's key hold the same set: a URL
  recorded for the module afterwards shows under the facade as well.
\<close>

lemma propagated_set_is_shared:
  assumes "refs r file = Some a"
  shows "urlsOf (recordPreload file u (propagate facade file r)) facade = insert u (urlsOf r file)"
  using assms by (auto simp: urlsOf_def recordPreload_def propagate_def setAdd_def)








section \<open>Lifting invariants of the shared state\<close>

lemma resumeTimes_state:
  assumes "\<And>st t. I st \<Longrightarrow> I (fst (step p ident relative (st, t)))"
  shows "I (fst x) \<Longrightarrow> I (fst (resumeTimes p ident relative n x))"
proof (induction n arbitrary: x)
  case 0
  then show ?case by simp
next
  case (Suc n)
  have "I (fst (step p ident relative x))"
    using assms [of "fst x" "snd x"] Suc.prems by simp
  then show ?case using Suc.IH by simp
qed

lemma runSchedule_state:
  assumes "\<And>st t. I st \<Longrightarrow> I (fst (step p ident relative (st, t)))"
  shows "I st \<Longrightarrow> I (fst (runSchedule p ident relative schedule (st, ts)))"
proof (induction schedule arbitrary: st ts)
  case Nil
  then show ?case by simp
next
  case (Cons n ns)
  show ?case
  proof (cases "n < length ts")
    case True
    obtain st' t' where s: "step p ident relative (st, ts ! n) = (st', t')"
      by (cases "step p ident relative (st, ts ! n)")
    have "I st'" using assms [OF Cons.prems, of "ts ! n"] s by simp
    then show ?thesis using Cons.IH [of st' "ts[n := t']"] True s by simp
  next
    case False
    then show ?thesis using Cons by simp
  qed
qed

lemma settle_state:
  assumes "\<And>st t. I st \<Longrightarrow> I (fst (step p ident relative (st, t)))"
  shows "I st \<Longrightarrow> I (fst (settle p ident relative st ts))"
proof (induction ts arbitrary: st)
  case Nil
  then show ?case by simp
next
  case (Cons t ts)
  obtain st' t' where r: "runToEnd p ident relative (st, t) = (st', t')"
    by (cases "runToEnd p ident relative (st, t)")
  have "I (fst (runToEnd p ident relative (st, t)))"
    unfolding runToEnd_def using resumeTimes_state [of I p ident relative "(st, t)", OF assms] Cons.prems
    by simp
  then have "I st'" using r by simp
  then have "I (fst (settle p ident relative st' ts))" by (rule Cons.IH)
  then show ?case using r by (cases "settle p ident relative st' ts") simp
qed

lemma rewrite_state:
  assumes "\<And>st t. I st \<Longrightarrow> I (fst (step p ident relative (st, t)))"
    and "I \<lparr>edits = newMagicString code, injectedDeclarations = [], fontsToPreload = registry\<rparr>"
  shows "I (fst (rewrite p schedule code ident relative registry))"
proof -
  let ?st = "\<lparr>edits = newMagicString code, injectedDeclarations = [], fontsToPreload = registry\<rparr>"
  let ?ts = "secondWalk p (firstWalk p (parse (deps p) code) []) (parse (deps p) code)"
  obtain st' ts' where r: "runSchedule p ident relative schedule (?st, ?ts) = (st', ts')"
    by (cases "runSchedule p ident relative schedule (?st, ?ts)")
  have "I (fst (runSchedule p ident relative schedule (?st, ?ts)))"
    using assms by (rule runSchedule_state)
  then have "I st'" using r by simp
  then have "I (fst (settle p ident relative st' ts'))"
    using assms(1) by (rule settle_state [rotated])
  then show ?thesis using r by (simp add: rewrite_def Let_def)
qed

section \<open>The buffer keeps the original text\<close>

lemma keeps_new: "keeps code (newMagicString code)"
  by (simp add: keeps_def newMagicString_def)

lemma keeps_prepend: "keeps code m \<Longrightarrow> keeps code (prepend content m)"
  by (simp add: keeps_def prepend_def)

lemma keeps_prependLeft: "keeps code m \<Longrightarrow> keeps code (prependLeft idx content m)"
  by (auto simp: keeps_def prependLeft_def anchored_def split: option.splits)

lemma keeps_splice: "keeps code m \<Longrightarrow> keeps code (spliceFamilies t m)"
  by (simp add: spliceFamilies_def keeps_prependLeft split: option.splits)

lemma keeps_finish: "keeps code (edits st) \<Longrightarrow> keeps code (edits (fst (finish (st, t))))"
  by (simp add: keeps_splice keeps_prepend)

lemma keeps_afterFont:
  "keeps code (edits st) \<Longrightarrow> keeps code (edits (fst (afterFont h later (st, t))))"
  by (cases later) (simp_all add: keeps_splice keeps_prepend)

lemma keeps_declarationsLoop:
  "keeps code (edits st) \<Longrightarrow> keeps code (edits (fst (declarationsLoop p h later ds (st, t))))"
proof (induction ds arbitrary: st t)
  case Nil
  then show ?case by (simp add: keeps_afterFont del: afterFont.simps)
next
  case (Cons d ds)
  then show ?case by simp
qed

lemma keeps_step:
  "keeps code (edits st) \<Longrightarrow> keeps code (edits (fst (step p ident relative (st, t))))"
  by (simp add: step.simps keeps_declarationsLoop split: Pc.splits option.splits list.splits)

lemma keeps_rewrite:
  "keeps code (edits (fst (rewrite p schedule code ident relative registry)))"
  by (rule rewrite_state [where I = "\<lambda>st. keeps code (edits st)"])
    (simp_all add: keeps_step keeps_new)

lemma transformCSS_rewrite:
  "fst (transformCSS p schedule code ident relative registry)
     = edits (fst (rewrite p schedule code ident relative registry))"
  by (simp add: transformCSS_def split: prod.splits)

text \<open>
  Claim C9. For every stylesheet, resolver and schedule, the buffer that \<^verbatim>\<open>transformCSS\<close>
  returns still has the input as its original text, so the input is a subsequence of the
  output. The output is the intro (where every \<^verbatim>\<open>prepend\<close> goes) followed by the
  original characters in order; the first original character follows the intro directly,
  and for every later offset \<open>k\<close> the text anchored there (where \<^verbatim>\<open>prependLeft(k, ...)\<close>
  goes; several inserts at one offset stand there together, the last one first) stands
  immediately before the character at \<open>k\<close>. An insert at an offset that magic-string
  does not anchor is part of the intro.
\<close>

theorem original_text_kept:
  "original (fst (transformCSS p schedule code ident relative registry)) = code
   \<and> subseq code (toString (fst (transformCSS p schedule code ident relative registry)))
   \<and> (\<forall>k < length code.
        toString (fst (transformCSS p schedule code ident relative registry))
          = intro (fst (transformCSS p schedule code ident relative registry))
            @ renderBefore (outro (fst (transformCSS p schedule code ident relative registry))) 0
                (take k code)
            @ (if k = 0 then [] else outro (fst (transformCSS p schedule code ident relative registry)) k)
            @ code ! k
            # render (outro (fst (transformCSS p schedule code ident relative registry))) (Suc k)
                (drop (Suc k) code))"
proof -
  let ?m = "fst (transformCSS p schedule code ident relative registry)"
  have k: "keeps code ?m"
    by (simp add: transformCSS_rewrite keeps_rewrite)
  then have o: "original ?m = code" by (simp add: keeps_def)
  have s: "subseq code (toString ?m)"
    using subseq_toString [of ?m] o by simp
  have "toString ?m = intro ?m @ renderBefore (outro ?m) 0 (take k code)
            @ (if k = 0 then [] else outro ?m k) @ code ! k # render (outro ?m) (Suc k) (drop (Suc k) code)"
    if "k < length code" for k
  proof -
    have "code \<noteq> []" using that by auto
    then have "outro ?m 0 = []" using k by (simp add: keeps_def)
    then have "(if k = 0 then [] else outro ?m k) = outro ?m k" by simp
    then show ?thesis
      using render_at [OF that, of "outro ?m"] o by (simp add: toString_def)
  qed
  with o s show ?thesis by blast
qed

theorem original_text_kept_witness:
  "(19::nat) < length twiceCss
   \<and> original (fst (transformCSS devPlugin [1, 0] twiceCss ''a.css'' True emptyRegistry)) = twiceCss
   \<and> toString (fst (transformCSS devPlugin [1, 0] twiceCss ''a.css'' True emptyRegistry))
       = intro (fst (transformCSS devPlugin [1, 0] twiceCss ''a.css'' True emptyRegistry))
         @ renderBefore (outro (fst (transformCSS devPlugin [1, 0] twiceCss ''a.css'' True emptyRegistry))) 0
             (take 19 twiceCss)
         @ (if (19::nat) = 0 then []
            else outro (fst (transformCSS devPlugin [1, 0] twiceCss ''a.css'' True emptyRegistry)) 19)
         @ twiceCss ! 19
         # render (outro (fst (transformCSS devPlugin [1, 0] twiceCss ''a.css'' True emptyRegistry))) (Suc 19)
             (drop (Suc 19) twiceCss)"
proof -
  have len: "(19::nat) < length twiceCss"
    by (simp add: twiceCss_def)
  show ?thesis
    using len original_text_kept [of devPlugin "[1, 0]" twiceCss "''a.css''" True emptyRegistry]
    by blast
qed

section \<open>No candidates\<close>

lemma runSchedule_no_tasks: "runSchedule p ident relative schedule (st, []) = (st, [])"
  by (induction schedule) simp_all

lemma secondWalk_none:
  "\<forall>node \<in> set ast. enter p existing node = None \<Longrightarrow> secondWalk p existing ast = []"
  by (induction ast) (simp_all add: secondWalk_def List.map_filter_def)

lemma transformCSS_no_tasks:
  assumes "secondWalk p (firstWalk p (parse (deps p) code) []) (parse (deps p) code) = []"
  shows "transformCSS p schedule code ident relative registry = (newMagicString code, registry)"
  using assms by (simp add: transformCSS_def rewrite_def Let_def runSchedule_no_tasks)

text \<open>
  Claim C8, as the code has it. \<^verbatim>\<open>generateBundle\<close> replaces the source of a CSS asset only
  when the buffer reports a change. When every declaration of the stylesheet is inside an
  \<^verbatim>\<open>@font-face\<close> rule or is neither a \<^verbatim>\<open>font-family\<close> nor a \<^verbatim>\<open>font\<close> declaration, nor,
  with custom-property processing enabled, a custom property, the buffer reports no change
  and asset and registry stay as they were.
\<close>

theorem untouched_without_candidates:
  "(\<not> hasChanged (fst (transformCSS p schedule source key True registry)) \<longrightarrow>
      fst (handleOutput p schedule key (OutputAsset fileName source) registry)
        = OutputAsset fileName source)
   \<and> ((\<forall>node \<in> set (parse (deps p) source).
          atrule node = Some ''font-face'' \<or>
          (property node \<noteq> ''font-family'' \<and> property node \<noteq> ''font'' \<and>
           \<not> (processCSSVariables (options p) = Some True \<and> startsWith (property node) ''--'')))
        \<longrightarrow> \<not> hasChanged (fst (transformCSS p schedule source key True registry))
            \<and> handleOutput p schedule key (OutputAsset fileName source) registry
                = (OutputAsset fileName source, registry))"
proof
  show "\<not> hasChanged (fst (transformCSS p schedule source key True registry)) \<longrightarrow>
      fst (handleOutput p schedule key (OutputAsset fileName source) registry)
        = OutputAsset fileName source"
    by (simp add: handleOutput_def split: prod.splits)
next
  show "(\<forall>node \<in> set (parse (deps p) source).
          atrule node = Some ''font-face'' \<or>
          (property node \<noteq> ''font-family'' \<and> property node \<noteq> ''font'' \<and>
           \<not> (processCSSVariables (options p) = Some True \<and> startsWith (property node) ''--'')))
        \<longrightarrow> \<not> hasChanged (fst (transformCSS p schedule source key True registry))
            \<and> handleOutput p schedule key (OutputAsset fileName source) registry
                = (OutputAsset fileName source, registry)"
  proof
    let ?ast = "parse (deps p) source"
    assume a: "\<forall>node \<in> set ?ast.
          atrule node = Some ''font-face'' \<or>
          (property node \<noteq> ''font-family'' \<and> property node \<noteq> ''font'' \<and>
           \<not> (processCSSVariables (options p) = Some True \<and> startsWith (property node) ''--''))"
    have "\<forall>node \<in> set ?ast. enter p (firstWalk p ?ast []) node = None"
      using a by (auto simp: enter_def returnsEarly_def truthy_def)
    then have "secondWalk p (firstWalk p ?ast []) ?ast = []"
      by (rule secondWalk_none)
    then have t: "transformCSS p schedule source key True registry = (newMagicString source, registry)"
      by (rule transformCSS_no_tasks)
    then show "\<not> hasChanged (fst (transformCSS p schedule source key True registry))
            \<and> handleOutput p schedule key (OutputAsset fileName source) registry
                = (OutputAsset fileName source, registry)"
      by (simp add: handleOutput_def not_changed_new)
  qed
qed


theorem untouched_without_candidates_witness:
  "map property (parse (deps devPlugin) variableCss) = [''--f'']
   \<and> processCSSVariables (options devPlugin) = None
   \<and> \<not> hasChanged (fst (transformCSS devPlugin [0] variableCss ''a.css'' True emptyRegistry))
   \<and> handleOutput devPlugin [0] ''a.css'' (OutputAsset ''a.css?v=2'' variableCss) emptyRegistry
       = (OutputAsset ''a.css?v=2'' variableCss, emptyRegistry)"
proof -
  have none: "\<forall>node \<in> set (parse (deps devPlugin) variableCss).
      atrule node = Some ''font-face'' \<or>
      (property node \<noteq> ''font-family'' \<and> property node \<noteq> ''font'' \<and>
       \<not> (processCSSVariables (options devPlugin) = Some True \<and> startsWith (property node) ''--''))"
    by (simp add: devPlugin_def fooImports_def fooOptions_def variableAst_def variableCss_def
        twiceCss_def declaredCss_def)
  have ast: "map property (parse (deps devPlugin) variableCss) = [''--f'']"
    "processCSSVariables (options devPlugin) = None"
    by (simp_all add: devPlugin_def fooImports_def fooOptions_def variableAst_def variableCss_def
        twiceCss_def declaredCss_def)
  show ?thesis
    using none ast untouched_without_candidates [of devPlugin "[0]" variableCss "''a.css''"
        emptyRegistry "''a.css?v=2''"]
    by blast
qed

text \<open>
  With custom-property processing enabled, a stylesheet whose only declaration is the
  custom property \<^verbatim>\<open>--f\<close> has no \<^verbatim>\<open>font-family\<close> or \<^verbatim>\<open>font\<close> declaration, and its
  asset is rewritten.
\<close>

theorem custom_property_changes_counterexample:
  "isCSS ''a.css''
   \<and> map property (parse (deps variablesPlugin) variableCss) = [''--f'']
   \<and> hasChanged (fst (transformCSS variablesPlugin [] variableCss ''a.css'' True emptyRegistry))
   \<and> fst (handleOutput variablesPlugin [] ''a.css'' (OutputAsset ''a.css'' variableCss) emptyRegistry)
       \<noteq> OutputAsset ''a.css'' variableCss"
  by code_simp

section \<open>Every task finishes\<close>

lemma awaitsLeft_declarationsLoop:
  "awaitsLeft p (snd (declarationsLoop p h later ds (st, t)))
     \<le> length ds + sum_list (map (awaitsOfFont p (fontFamily t) (fallbackMap t)) later)"
proof (induction ds arbitrary: st t)
  case Nil
  then show ?case
    by (cases later) (simp_all add: awaitsLeft_def)
next
  case (Cons d ds)
  then show ?case
    using Cons.IH [of st t]
      Cons.IH [of "st\<lparr>injectedDeclarations := injectedDeclarations st @ [d]\<rparr>"
        "t\<lparr>prefaces := prefaces t @ [d @ newline]\<rparr>"]
    by (auto simp: le_Suc_eq awaitsLeft_def)
qed

lemma step_decreases:
  assumes "pc t \<noteq> Finished"
  shows "awaitsLeft p (snd (step p ident relative (st, t))) < awaitsLeft p t"
proof (cases "pc t")
  case AwaitResolve
  then show ?thesis
    by (simp add: step.simps awaitsLeft_def awaitsOfFont_def split: option.splits list.splits)
next
  case (AwaitFallbacks font later)
  have "length (declarations p ident relative t font)
          = Suc (length (generateFontFallbacks (deps p) (fontFamily t) font (fallbackMap t)))"
    by (simp add: declarations_def fallbackDeclarations_def)
  then show ?thesis
    using AwaitFallbacks
      awaitsLeft_declarationsLoop [of p "fallbackDeclarations p t font \<noteq> []" later
        "declarations p ident relative t font" st t]
    by (simp add: step.simps awaitsLeft_def awaitsOfFont_def)
next
  case (AwaitTransform d ds h later)
  then show ?thesis
    using awaitsLeft_declarationsLoop [of p h later ds st "t\<lparr>prefaces := prefaces t @ [minified p d]\<rparr>"]
    by (simp add: step.simps awaitsLeft_def)
next
  case Finished
  then show ?thesis using assms by simp
qed

lemma awaitsLeft_zero: "awaitsLeft p t = 0 \<Longrightarrow> pc t = Finished"
  by (cases "pc t") (simp_all add: awaitsLeft_def awaitsOfFont_def)

lemma step_Finished: "pc t = Finished \<Longrightarrow> step p ident relative (st, t) = (st, t)"
  by (simp add: step.simps)

lemma resumeTimes_finishes:
  "awaitsLeft p (snd x) \<le> n \<Longrightarrow> pc (snd (resumeTimes p ident relative n x)) = Finished"
proof (induction n arbitrary: x)
  case 0
  then show ?case by (simp add: awaitsLeft_zero)
next
  case (Suc n)
  obtain st t where x: "x = (st, t)" by (cases x)
  show ?case
  proof (cases "pc t = Finished")
    case True
    then have "awaitsLeft p t = 0" by (simp add: awaitsLeft_def)
    then show ?thesis using Suc.IH [of x] True x by (simp add: step_Finished)
  next
    case False
    then have "awaitsLeft p (snd (step p ident relative x)) \<le> n"
      using step_decreases [OF False, of p ident relative st] Suc.prems x by simp
    then show ?thesis using Suc.IH by simp
  qed
qed

lemma runToEnd_finishes: "pc (snd (runToEnd p ident relative x)) = Finished"
  by (simp add: runToEnd_def resumeTimes_finishes)

lemma settle_finishes: "list_all (\<lambda>t. pc t = Finished) (snd (settle p ident relative st ts))"
proof (induction ts arbitrary: st)
  case Nil
  then show ?case by simp
next
  case (Cons t ts)
  obtain st' t' where r: "runToEnd p ident relative (st, t) = (st', t')"
    by (cases "runToEnd p ident relative (st, t)")
  then have "pc t' = Finished"
    using runToEnd_finishes [of p ident relative "(st, t)"] by simp
  then show ?case
    using r Cons.IH [of st'] by (cases "settle p ident relative st' ts") simp
qed

lemma rewrite_finishes:
  "list_all (\<lambda>t. pc t = Finished) (snd (rewrite p schedule code ident relative registry))"
  by (simp add: rewrite_def Let_def settle_finishes split: prod.splits)

section \<open>The injected set has no duplicates\<close>

lemma distinct_declarationsLoop:
  "distinct (injectedDeclarations st) \<Longrightarrow>
   distinct (injectedDeclarations (fst (declarationsLoop p h later ds (st, t))))"
proof (induction ds arbitrary: st t)
  case Nil
  then show ?case by (cases later) simp_all
next
  case (Cons d ds)
  then show ?case by simp
qed

lemma distinct_step:
  "distinct (injectedDeclarations st) \<Longrightarrow>
   distinct (injectedDeclarations (fst (step p ident relative (st, t))))"
  by (simp add: step.simps distinct_declarationsLoop split: Pc.splits option.splits list.splits)

lemma distinct_rewrite:
  "distinct (injectedDeclarations (fst (rewrite p schedule code ident relative registry)))"
  by (rule rewrite_state [where I = "\<lambda>st. distinct (injectedDeclarations st)"])
    (simp_all add: distinct_step)

section \<open>What is queued\<close>

lemma balance_declarationsLoop:
  "mset (map (emitted p) (injectedDeclarations (fst (declarationsLoop p h later ds (st, t)))))
     + mset (prefaces t)
   = mset (map (emitted p) (injectedDeclarations st))
     + queuedBy p (snd (declarationsLoop p h later ds (st, t)))
   \<and> wellFormed p (snd (declarationsLoop p h later ds (st, t)))"
proof (induction ds arbitrary: st t)
  case Nil
  then show ?case
    by (cases later) (simp_all add: queuedBy_def wellFormed_def)
next
  case (Cons d ds)
  show ?case
  proof (cases "d \<in> set (injectedDeclarations st)")
    case True
    then show ?thesis using Cons.IH [of st t] by simp
  next
    case False
    show ?thesis
    proof (cases "truthy (isDev p)")
      case True
      then show ?thesis
        using False
          Cons.IH [of "st\<lparr>injectedDeclarations := injectedDeclarations st @ [d]\<rparr>"
            "t\<lparr>prefaces := prefaces t @ [d @ newline]\<rparr>"]
        by (simp add: emitted_def)
    next
      case dev: False
      then show ?thesis using False by (simp add: queuedBy_def wellFormed_def)
    qed
  qed
qed

lemma balance_step:
  assumes "wellFormed p t"
  shows "mset (map (emitted p) (injectedDeclarations (fst (step p ident relative (st, t)))))
           + queuedBy p t
         = mset (map (emitted p) (injectedDeclarations st))
           + queuedBy p (snd (step p ident relative (st, t)))
         \<and> wellFormed p (snd (step p ident relative (st, t)))"
proof (cases "pc t")
  case AwaitResolve
  then show ?thesis using assms
    by (simp add: step.simps queuedBy_def wellFormed_def split: option.splits list.splits)
next
  case (AwaitFallbacks font later)
  then show ?thesis
    using balance_declarationsLoop [of p "fallbackDeclarations p t font \<noteq> []" later
        "declarations p ident relative t font" st t]
    by (simp add: step.simps queuedBy_def)
next
  case (AwaitTransform d ds h later)
  then have "\<not> truthy (isDev p)" using assms by (simp add: wellFormed_def)
  then show ?thesis
    using AwaitTransform
      balance_declarationsLoop [of p h later ds st "t\<lparr>prefaces := prefaces t @ [minified p d]\<rparr>"]
    by (simp add: step.simps queuedBy_def emitted_def)
next
  case Finished
  then show ?thesis using assms by (simp add: step.simps)
qed


lemma sum_list_update_balance:
  fixes f :: "'a \<Rightarrow> 'b multiset"
  shows "n < length ts \<Longrightarrow>
         sum_list (map f (ts[n := y])) + f (ts ! n) = sum_list (map f ts) + f y"
proof (induction ts arbitrary: n)
  case Nil
  then show ?case by simp
next
  case (Cons t ts)
  then show ?case by (cases n) (simp_all add: ac_simps)
qed

lemma list_all_update:
  "list_all P ts \<Longrightarrow> P y \<Longrightarrow> list_all P (ts[n := y])"
  by (induction ts arbitrary: n) (auto split: nat.splits)

lemma balance_runSchedule:
  assumes "list_all (wellFormed p) ts"
    and "mset (map (emitted p) (injectedDeclarations st)) = C + sum_list (map (queuedBy p) ts)"
  shows "list_all (wellFormed p) (snd (runSchedule p ident relative schedule (st, ts)))
         \<and> mset (map (emitted p)
              (injectedDeclarations (fst (runSchedule p ident relative schedule (st, ts)))))
           = C + sum_list (map (queuedBy p) (snd (runSchedule p ident relative schedule (st, ts))))"
  using assms
proof (induction schedule arbitrary: st ts)
  case Nil
  then show ?case by simp
next
  case (Cons n ns)
  show ?case
  proof (cases "n < length ts")
    case True
    obtain st' t' where s: "step p ident relative (st, ts ! n) = (st', t')"
      by (cases "step p ident relative (st, ts ! n)")
    have wf: "wellFormed p (ts ! n)"
      using Cons.prems(1) True by (simp add: list_all_length)
    from balance_step [OF wf, of ident relative st] s
    have b: "mset (map (emitted p) (injectedDeclarations st')) + queuedBy p (ts ! n)
               = mset (map (emitted p) (injectedDeclarations st)) + queuedBy p t'"
      and wf': "wellFormed p t'" by simp_all
    have "mset (map (emitted p) (injectedDeclarations st')) + queuedBy p (ts ! n)
            = C + (sum_list (map (queuedBy p) (ts[n := t'])) + queuedBy p (ts ! n))"
      using b Cons.prems(2) sum_list_update_balance [OF True, of "queuedBy p" t']
      by (simp add: ac_simps)
    then have "mset (map (emitted p) (injectedDeclarations st'))
            = C + sum_list (map (queuedBy p) (ts[n := t']))"
      by simp
    moreover have "list_all (wellFormed p) (ts[n := t'])"
      using Cons.prems(1) wf' by (rule list_all_update)
    ultimately show ?thesis
      using Cons.IH [of "ts[n := t']" st'] True s by simp
  next
    case False
    then show ?thesis using Cons by simp
  qed
qed

lemma balance_resumeTimes:
  assumes "wellFormed p t"
  shows "mset (map (emitted p)
           (injectedDeclarations (fst (resumeTimes p ident relative n (st, t))))) + queuedBy p t
         = mset (map (emitted p) (injectedDeclarations st))
           + queuedBy p (snd (resumeTimes p ident relative n (st, t)))"
  using assms
proof (induction n arbitrary: st t)
  case 0
  then show ?case by simp
next
  case (Suc n)
  obtain st' t' where s: "step p ident relative (st, t) = (st', t')"
    by (cases "step p ident relative (st, t)")
  from balance_step [OF Suc.prems, of ident relative st] s
  have b: "mset (map (emitted p) (injectedDeclarations st')) + queuedBy p t
             = mset (map (emitted p) (injectedDeclarations st)) + queuedBy p t'"
    and wf': "wellFormed p t'" by simp_all
  let ?R = "resumeTimes p ident relative n (st', t')"
  have "mset (map (emitted p) (injectedDeclarations (fst ?R))) + queuedBy p t' + queuedBy p t
          = mset (map (emitted p) (injectedDeclarations st')) + queuedBy p (snd ?R) + queuedBy p t"
    using Suc.IH [OF wf', of st'] by simp
  also have "\<dots> = mset (map (emitted p) (injectedDeclarations st)) + queuedBy p (snd ?R) + queuedBy p t'"
    using b by (simp add: ac_simps)
  finally show ?case using s by simp
qed

lemma balance_settle:
  assumes "list_all (wellFormed p) ts"
    and "mset (map (emitted p) (injectedDeclarations st)) = C + sum_list (map (queuedBy p) ts)"
  shows "mset (map (emitted p) (injectedDeclarations (fst (settle p ident relative st ts))))
           = C + sum_list (map (queuedBy p) (snd (settle p ident relative st ts)))"
  using assms
proof (induction ts arbitrary: st C)
  case Nil
  then show ?case by simp
next
  case (Cons t ts)
  obtain st' t' where r: "runToEnd p ident relative (st, t) = (st', t')"
    by (cases "runToEnd p ident relative (st, t)")
  have wf: "wellFormed p t" and wfs: "list_all (wellFormed p) ts"
    using Cons.prems(1) by simp_all
  have "mset (map (emitted p) (injectedDeclarations st')) + queuedBy p t
          = mset (map (emitted p) (injectedDeclarations st)) + queuedBy p t'"
    using balance_resumeTimes [OF wf, of ident relative "awaitsLeft p t" st] r
    by (simp add: runToEnd_def)
  then have "mset (map (emitted p) (injectedDeclarations st')) + queuedBy p t
          = (C + queuedBy p t') + sum_list (map (queuedBy p) ts) + queuedBy p t"
    using Cons.prems(2) by (simp add: ac_simps)
  then have "mset (map (emitted p) (injectedDeclarations st'))
          = (C + queuedBy p t') + sum_list (map (queuedBy p) ts)"
    by simp
  from Cons.IH [OF wfs this] show ?case
    using r by (cases "settle p ident relative st' ts") (simp add: ac_simps)
qed

lemma wellFormed_secondWalk: "list_all (wellFormed p) (secondWalk p existing ast)"
  by (induction ast)
    (auto simp: secondWalk_def List.map_filter_def enter_def wellFormed_def newTask_def
      split: list.splits)

lemma queuedBy_secondWalk: "sum_list (map (queuedBy p) (secondWalk p existing ast)) = {#}"
  by (induction ast)
    (auto simp: secondWalk_def List.map_filter_def enter_def queuedBy_def newTask_def
      split: list.splits)

lemma queuedBy_finished:
  "list_all (\<lambda>t. pc t = Finished) ts \<Longrightarrow>
   sum_list (map (queuedBy p) ts) = mset (concat (map prefaces ts))"
  by (induction ts) (simp_all add: queuedBy_def)

section \<open>The local variables of a task\<close>

lemma resolved_same:
  "fontFamily t = fontFamily t0 \<Longrightarrow> fallbackOptions t = fallbackOptions t0 \<Longrightarrow>
   resolved p t = resolved p t0"
  by (simp add: resolved_def)

lemma anyFallbacks_Cons:
  "anyFallbacks p family fm (font # later)
     = (generateFontFallbacks (deps p) family font fm \<noteq> [] \<or> anyFallbacks p family fm later)"
  by (simp add: anyFallbacks_def)

lemma anyFallbacks_Nil: "anyFallbacks p family fm [] = False"
  by (simp add: anyFallbacks_def)

lemma tracks_declarationsLoop:
  assumes "fontFamily t = fontFamily t0" and "fallbackOptions t = fallbackOptions t0"
    and "fallbackMap t = fm"
    and "g = (insertFontFamilies t \<or> h \<or> anyFallbacks p (fontFamily t0) fm later)"
  shows "tracks p t0 fm g (snd (declarationsLoop p h later ds (st, t)))"
  using assms
proof (induction ds arbitrary: st t)
  case Nil
  show ?case
  proof (cases later)
    case Nil
    then show ?thesis
      using Nil.prems by (simp add: tracks_def anyFallbacks_Nil)
  next
    case (Cons font others)
    then show ?thesis
      using Nil.prems by (simp add: tracks_def)
  qed
next
  case (Cons d ds)
  have "tracks p t0 fm g (snd (declarationsLoop p h later ds (st', t\<lparr>prefaces := x\<rparr>)))" for st' x
    by (rule Cons.IH) (use Cons.prems in simp_all)
  moreover have "tracks p t0 fm g (snd (declarationsLoop p h later ds (st, t)))"
    by (rule Cons.IH) (use Cons.prems in simp_all)
  moreover have "tracks p t0 fm g (t\<lparr>pc := AwaitTransform d ds h later\<rparr>)"
    using Cons.prems by (simp add: tracks_def)
  ultimately show ?case by simp
qed

lemma tracks_step:
  assumes "tracks p t0 fm g t"
    and "fonts (resolved p t0) = Some (f # fs)"
    and "fm = makeFallbackMap (fontFamily t0) (resolved p t0)"
    and "g = anyFallbacks p (fontFamily t0) fm (f # fs)"
  shows "tracks p t0 fm g (snd (step p ident relative (st, t)))"
proof (cases "pc t")
  case AwaitResolve
  have same: "fontFamily t = fontFamily t0" "fallbackOptions t = fallbackOptions t0"
    using assms(1) by (simp_all add: tracks_def)
  then have "resolved p t = resolved p t0"
    by (rule resolved_same)
  then have "snd (step p ident relative (st, t))
      = t\<lparr>fallbackMap := fm, insertFontFamilies := False, prefaces := [],
           pc := AwaitFallbacks f fs\<rparr>"
    using AwaitResolve assms(2,3) same by (simp add: step.simps)
  then show ?thesis
    using same assms(4) by (simp add: tracks_def)
next
  case (AwaitFallbacks font later)
  have t: "fontFamily t = fontFamily t0" "fallbackOptions t = fallbackOptions t0"
    "fallbackMap t = fm"
    and g: "g = (insertFontFamilies t \<or> anyFallbacks p (fontFamily t0) fm (font # later))"
    using assms(1) AwaitFallbacks by (simp_all add: tracks_def)
  have h: "(fallbackDeclarations p t font \<noteq> [])
             = (generateFontFallbacks (deps p) (fontFamily t0) font fm \<noteq> [])"
    using t by (simp add: fallbackDeclarations_def)
  have "g = (insertFontFamilies t \<or> fallbackDeclarations p t font \<noteq> []
               \<or> anyFallbacks p (fontFamily t0) fm later)"
    unfolding g h anyFallbacks_Cons by (rule refl)
  with t have "tracks p t0 fm g (snd (declarationsLoop p (fallbackDeclarations p t font \<noteq> [])
      later (declarations p ident relative t font) (st, t)))"
    by (rule tracks_declarationsLoop)
  then show ?thesis using AwaitFallbacks by (simp add: step.simps)
next
  case (AwaitTransform d ds h later)
  have t: "fontFamily t = fontFamily t0" "fallbackOptions t = fallbackOptions t0"
    "fallbackMap t = fm"
    and g: "g = (insertFontFamilies t \<or> h \<or> anyFallbacks p (fontFamily t0) fm later)"
    using assms(1) AwaitTransform by (simp_all add: tracks_def)
  have "tracks p t0 fm g (snd (declarationsLoop p h later ds
          (st, t\<lparr>prefaces := prefaces t @ [minified p d]\<rparr>)))"
    by (rule tracks_declarationsLoop) (simp_all add: t g [symmetric])
  then show ?thesis using AwaitTransform by (simp add: step.simps)
next
  case Finished
  then show ?thesis using assms(1) by (simp add: step.simps)
qed

lemma tracks_reaches:
  assumes "reaches P p ident relative t0 t"
    and "pc t0 = AwaitResolve" and "fonts (resolved p t0) = Some (f # fs)"
  shows "tracks p t0 (makeFallbackMap (fontFamily t0) (resolved p t0))
           (anyFallbacks p (fontFamily t0) (makeFallbackMap (fontFamily t0) (resolved p t0)) (f # fs)) t"
  using assms
proof (induction rule: reaches.induct)
  case start
  then show ?case by (simp add: tracks_def)
next
  case (resume t st)
  then have "tracks p t0 (makeFallbackMap (fontFamily t0) (resolved p t0))
           (anyFallbacks p (fontFamily t0) (makeFallbackMap (fontFamily t0) (resolved p t0)) (f # fs)) t"
    by simp
  then show ?case
    using resume.prems(2) by (rule tracks_step) (rule refl)+
qed

section \<open>The last step of a task\<close>

lemma finished_declarationsLoop:
  "pc (snd (declarationsLoop p h later ds (st, t))) = Finished \<Longrightarrow>
   edits (fst (declarationsLoop p h later ds (st, t)))
     = spliceFamilies (snd (declarationsLoop p h later ds (st, t)))
         (prepend (concat (prefaces (snd (declarationsLoop p h later ds (st, t))))) (edits st))"
proof (induction ds arbitrary: st t)
  case Nil
  then show ?case
    by (cases later) (auto simp: spliceFamilies_def split: option.splits)
next
  case (Cons d ds)
  show ?case
  proof (cases "d \<in> set (injectedDeclarations st)")
    case True
    then show ?thesis using Cons.IH [of st t] Cons.prems by simp
  next
    case False
    show ?thesis
    proof (cases "truthy (isDev p)")
      case True
      then show ?thesis
        using False Cons.prems
          Cons.IH [of "st\<lparr>injectedDeclarations := injectedDeclarations st @ [d]\<rparr>"
            "t\<lparr>prefaces := prefaces t @ [d @ newline]\<rparr>"]
        by simp
    next
      case dev: False
      then show ?thesis using False Cons.prems by simp
    qed
  qed
qed

lemma finished_step:
  assumes "pc t \<noteq> Finished" and "pc (snd (step p ident relative (st, t))) = Finished"
    and "fonts (resolved p t) = Some (f # fs)"
  shows "edits (fst (step p ident relative (st, t)))
     = spliceFamilies (snd (step p ident relative (st, t)))
         (prepend (concat (prefaces (snd (step p ident relative (st, t))))) (edits st))"
proof (cases "pc t")
  case AwaitResolve
  then show ?thesis using assms by (simp add: step.simps)
next
  case (AwaitFallbacks font later)
  then show ?thesis
    using assms(2)
      finished_declarationsLoop [of p "fallbackDeclarations p t font \<noteq> []" later
        "declarations p ident relative t font" st t]
    by (simp add: step.simps)
next
  case (AwaitTransform d ds h later)
  then show ?thesis
    using assms(2)
      finished_declarationsLoop [of p h later ds st "t\<lparr>prefaces := prefaces t @ [minified p d]\<rparr>"]
    by (simp add: step.simps)
next
  case Finished
  then show ?thesis using assms by simp
qed


lemma enter_newTask:
  assumes "enter p existing node = Some t0"
  shows "pc t0 = AwaitResolve"
    and "prefaces t0 = []"
    and "\<exists>others. extractFontFamilies (deps p) node = fontFamily t0 # others"
    and "fallbackOptions t0 =
           (if isRaw (dvalue node) then None
            else Some \<lparr>fo_generic = extractGeneric (deps p) node,
                       fo_fallbacks = tl (extractFontFamilies (deps p) node),
                       fo_index = extractEndOfFirstChild (deps p) node\<rparr>)"
  using assms
  by (auto simp: enter_def newTask_def parentOffset_def option.map_ident
      split: if_splits list.splits)

lemma insertedFamilies_makeFallbackMap:
  "insertedFamilies (makeFallbackMap family r)
     = join '', '' (map (\<lambda>f. dq @ family @ '' Fallback: '' @ f @ dq)
         (case fallbacks r of None \<Rightarrow> [] | Some fs \<Rightarrow> fs))"
  by (simp add: insertedFamilies_def makeFallbackMap_def comp_def split: option.splits)

lemma last_step_inserts:
  assumes "enter p existing node = Some t0"
    and "fonts (resolved p t0) = Some (font # later)"
    and "reaches (\<lambda>st. True) p ident relative t0 t"
    and "pc t \<noteq> Finished"
    and "pc (snd (step p ident relative (st, t))) = Finished"
  shows "(\<exists>others. extractFontFamilies (deps p) node = fontFamily t0 # others)
    \<and> fallbackMap (snd (step p ident relative (st, t)))
        = map (\<lambda>f. (f, fontFamily t0 @ '' Fallback: '' @ f))
            (case fallbacks (resolved p t0) of None \<Rightarrow> [] | Some fs \<Rightarrow> fs)
    \<and> edits (fst (step p ident relative (st, t)))
        = (if \<not> isRaw (dvalue node) \<and>
              list_ex (\<lambda>font. generateFontFallbacks (deps p) (fontFamily t0) font
                                (fallbackMap (snd (step p ident relative (st, t)))) \<noteq> [])
                (font # later)
           then prependLeft (extractEndOfFirstChild (deps p) node)
                  ('', '' @ join '', '' (map (\<lambda>f. dq @ fontFamily t0 @ '' Fallback: '' @ f @ dq)
                               (case fallbacks (resolved p t0) of None \<Rightarrow> [] | Some fs \<Rightarrow> fs)))
                  (prepend (concat (prefaces (snd (step p ident relative (st, t))))) (edits st))
           else prepend (concat (prefaces (snd (step p ident relative (st, t))))) (edits st))
    \<and> (\<forall>k. \<not> isRaw (dvalue node) \<and>
            list_ex (\<lambda>font. generateFontFallbacks (deps p) (fontFamily t0) font
                              (fallbackMap (snd (step p ident relative (st, t)))) \<noteq> [])
              (font # later) \<and>
            extractEndOfFirstChild (deps p) node = Some k \<and> 0 < k \<and> k \<le> length (original (edits st))
          \<longrightarrow> toString (edits (fst (step p ident relative (st, t))))
                = concat (prefaces (snd (step p ident relative (st, t))))
                  @ intro (edits st)
                  @ renderBefore (outro (edits st)) 0 (take k (original (edits st)))
                  @ ('', '' @ join '', '' (map (\<lambda>f. dq @ fontFamily t0 @ '' Fallback: '' @ f @ dq)
                               (case fallbacks (resolved p t0) of None \<Rightarrow> [] | Some fs \<Rightarrow> fs)))
                  @ render (outro (edits st)) k (drop k (original (edits st)))
              \<and> toString (edits st)
                = intro (edits st)
                  @ renderBefore (outro (edits st)) 0 (take k (original (edits st)))
                  @ render (outro (edits st)) k (drop k (original (edits st))))"
proof -
  let ?fm = "makeFallbackMap (fontFamily t0) (resolved p t0)"
  let ?g = "anyFallbacks p (fontFamily t0) ?fm (font # later)"
  let ?st' = "fst (step p ident relative (st, t))" and ?t' = "snd (step p ident relative (st, t))"
  let ?names = "map (\<lambda>f. dq @ fontFamily t0 @ '' Fallback: '' @ f @ dq)
                  (case fallbacks (resolved p t0) of None \<Rightarrow> [] | Some fs \<Rightarrow> fs)"
  let ?ins = "'', '' @ join '', '' ?names"
  let ?m = "prepend (concat (prefaces ?t')) (edits st)"
  note new = enter_newTask [OF assms(1)]
  have tr: "tracks p t0 ?fm ?g t"
    using assms(3) new(1) assms(2) by (rule tracks_reaches)
  then have tr': "tracks p t0 ?fm ?g ?t'"
    using assms(2) by (rule tracks_step) (rule refl)+
  have t': "fontFamily ?t' = fontFamily t0" "fallbackOptions ?t' = fallbackOptions t0"
    "fallbackMap ?t' = ?fm" "insertFontFamilies ?t' = ?g"
    using tr' assms(5) by (simp_all add: tracks_def)
  have "fontFamily t = fontFamily t0" "fallbackOptions t = fallbackOptions t0"
    using tr by (simp_all add: tracks_def)
  then have "resolved p t = resolved p t0"
    by (rule resolved_same)
  then have "fonts (resolved p t) = Some (font # later)"
    using assms(2) by simp
  with assms(4,5) have e: "edits ?st' = spliceFamilies ?t' ?m"
    by (rule finished_step)
  have fm: "?fm = map (\<lambda>f. (f, fontFamily t0 @ '' Fallback: '' @ f))
            (case fallbacks (resolved p t0) of None \<Rightarrow> [] | Some fs \<Rightarrow> fs)"
    by (simp add: makeFallbackMap_def split: option.splits)
  have g: "?g = list_ex (\<lambda>font. generateFontFallbacks (deps p) (fontFamily t0) font (fallbackMap ?t') \<noteq> [])
                (font # later)"
    unfolding t'(3) anyFallbacks_def by (rule refl)
  have txt': "'', '' @ insertedFamilies (fallbackMap ?t') = ?ins"
    unfolding t'(3) insertedFamilies_makeFallbackMap by (rule refl)
  have sp: "spliceFamilies ?t' ?m
      = (if \<not> isRaw (dvalue node) \<and> ?g
         then prependLeft (extractEndOfFirstChild (deps p) node) ?ins ?m else ?m)"
    unfolding spliceFamilies_def t'(2) t'(4) txt' new(4) by simp
  have pos: "toString (edits ?st')
                = concat (prefaces ?t') @ intro (edits st)
                  @ renderBefore (outro (edits st)) 0 (take k (original (edits st)))
                  @ ?ins @ render (outro (edits st)) k (drop k (original (edits st)))
              \<and> toString (edits st)
                = intro (edits st)
                  @ renderBefore (outro (edits st)) 0 (take k (original (edits st)))
                  @ render (outro (edits st)) k (drop k (original (edits st)))"
    if k: "\<not> isRaw (dvalue node)" "?g" "extractEndOfFirstChild (deps p) node = Some k"
      "0 < k" "k \<le> length (original (edits st))" for k
  proof -
    have a: "k \<le> length (original ?m)" "0 < k \<or> original ?m = []"
      using k by (simp_all add: prepend_def)
    have "edits ?st' = prependLeft (Some k) ?ins ?m"
      using e sp k by simp
    then have "toString (edits ?st') = intro ?m @ renderBefore (outro ?m) 0 (take k (original ?m))
        @ ?ins @ render (outro ?m) k (drop k (original ?m))"
      using toString_prependLeft(2) [OF a] by simp
    moreover have "toString (edits st) = intro (edits st)
        @ renderBefore (outro (edits st)) 0 (take k (original (edits st)))
        @ render (outro (edits st)) k (drop k (original (edits st)))"
      using toString_prependLeft(1) [of k "edits st"] k by simp
    ultimately show ?thesis by (simp add: prepend_def)
  qed
  have fmap: "fallbackMap ?t' = map (\<lambda>f. (f, fontFamily t0 @ '' Fallback: '' @ f))
            (case fallbacks (resolved p t0) of None \<Rightarrow> [] | Some fs \<Rightarrow> fs)"
    using t'(3) fm by (rule trans)
  have ed: "edits ?st' = (if \<not> isRaw (dvalue node) \<and> ?g
         then prependLeft (extractEndOfFirstChild (deps p) node) ?ins ?m else ?m)"
    using e sp by (rule trans)
  show ?thesis
    using new(3) fmap ed pos unfolding g by blast
qed

section \<open>A task run on its own\<close>

lemma declarations_update [simp]:
  "declarations p ident relative (t\<lparr>pc := x\<rparr>) = declarations p ident relative t"
  "declarations p ident relative (t\<lparr>prefaces := y\<rparr>) = declarations p ident relative t"
  "declarations p ident relative (t\<lparr>insertFontFamilies := z\<rparr>) = declarations p ident relative t"
  by (rule ext, simp add: declarations_def fallbackDeclarations_def)+

lemma outcome_declarationsLoop:
  "outcome p ident relative (declarationsLoop p h later ds (st, t))
     = settled p (insertFontFamilies t \<or> h \<or> anyFallbacks p (fontFamily t) (fallbackMap t) later)
         (ds @ concat (map (declarations p ident relative t) later)) (st, t)"
proof (induction ds arbitrary: st t)
  case Nil
  show ?case
  proof (cases later)
    case Nil
    then show ?thesis
      by (cases h) (simp_all add: outcome_def settled_def anyFallbacks_Nil spliceFamilies_def
          split: option.split)
  next
    case (Cons font others)
    then show ?thesis
      by (cases h) (simp_all add: outcome_def settled_def spliceFamilies_def split: option.split)
  qed
next
  case (Cons d ds)
  show ?case
  proof (cases "d \<in> set (injectedDeclarations st)")
    case True
    then show ?thesis
      using Cons.IH [of st t] by (simp add: settled_def)
  next
    case False
    show ?thesis
    proof (cases "truthy (isDev p)")
      case True
      then show ?thesis
        using False
          Cons.IH [of "st\<lparr>injectedDeclarations := injectedDeclarations st @ [d]\<rparr>"
            "t\<lparr>prefaces := prefaces t @ [d @ newline]\<rparr>"]
        by (simp add: settled_def emitted_def)
    next
      case dev: False
      then show ?thesis
        using False
        by (simp add: outcome_def settled_def emitted_def spliceFamilies_def split: option.split)
    qed
  qed
qed

lemma outcome_step:
  assumes "pc t \<noteq> AwaitResolve"
  shows "outcome p ident relative (step p ident relative (st, t)) = outcome p ident relative (st, t)"
proof (cases "pc t")
  case AwaitResolve
  then show ?thesis using assms by simp
next
  case (AwaitFallbacks font later)
  have "step p ident relative (st, t)
          = declarationsLoop p (fallbackDeclarations p t font \<noteq> []) later
              (declarations p ident relative t font) (st, t)"
    using AwaitFallbacks by (simp add: step.simps)
  then have "outcome p ident relative (step p ident relative (st, t))
          = settled p
              (insertFontFamilies t \<or> fallbackDeclarations p t font \<noteq> []
               \<or> anyFallbacks p (fontFamily t) (fallbackMap t) later)
              (declarations p ident relative t font
               @ concat (map (declarations p ident relative t) later)) (st, t)"
    by (simp only: outcome_declarationsLoop)
  moreover have "outcome p ident relative (st, t)
          = settled p
              (insertFontFamilies t \<or> fallbackDeclarations p t font \<noteq> []
               \<or> anyFallbacks p (fontFamily t) (fallbackMap t) later)
              (declarations p ident relative t font
               @ concat (map (declarations p ident relative t) later)) (st, t)"
    using AwaitFallbacks
    by (simp add: outcome_def anyFallbacks_Cons fallbackDeclarations_def)
  ultimately show ?thesis by simp
next
  case (AwaitTransform d ds h later)
  have "step p ident relative (st, t)
          = declarationsLoop p h later ds (st, t\<lparr>prefaces := prefaces t @ [minified p d]\<rparr>)"
    using AwaitTransform by (simp add: step.simps)
  then have "outcome p ident relative (step p ident relative (st, t))
          = settled p
              (insertFontFamilies t \<or> h \<or> anyFallbacks p (fontFamily t) (fallbackMap t) later)
              (ds @ concat (map (declarations p ident relative t) later))
              (st, t\<lparr>prefaces := prefaces t @ [minified p d]\<rparr>)"
    by (simp add: outcome_declarationsLoop)
  moreover have "outcome p ident relative (st, t)
          = settled p
              (insertFontFamilies t \<or> h \<or> anyFallbacks p (fontFamily t) (fallbackMap t) later)
              (ds @ concat (map (declarations p ident relative t) later))
              (st, t\<lparr>prefaces := prefaces t @ [minified p d]\<rparr>)"
    using AwaitTransform by (simp add: outcome_def)
  ultimately show ?thesis by simp
next
  case Finished
  then show ?thesis by (simp add: step.simps)
qed

lemma resolved_declarationsLoop:
  "pc (snd (declarationsLoop p h later ds (st, t))) \<noteq> AwaitResolve"
proof (induction ds arbitrary: st t)
  case Nil
  then show ?case by (cases later) simp_all
next
  case (Cons d ds)
  then show ?case by simp
qed

lemma resolved_step:
  "pc t \<noteq> AwaitResolve \<Longrightarrow> pc (snd (step p ident relative (st, t))) \<noteq> AwaitResolve"
  by (cases "pc t") (simp_all add: step.simps resolved_declarationsLoop)

lemma outcome_resumeTimes:
  "pc (snd x) \<noteq> AwaitResolve \<Longrightarrow>
   outcome p ident relative (resumeTimes p ident relative n x) = outcome p ident relative x"
proof (induction n arbitrary: x)
  case 0
  then show ?case by simp
next
  case (Suc n)
  obtain st t where x: "x = (st, t)" by (cases x)
  have "pc (snd (step p ident relative x)) \<noteq> AwaitResolve"
    using Suc.prems x by (simp add: resolved_step)
  then have "outcome p ident relative (resumeTimes p ident relative n (step p ident relative x))
               = outcome p ident relative (step p ident relative x)"
    by (rule Suc.IH)
  then show ?case
    using Suc.prems x by (simp add: outcome_step)
qed

lemma outcome_Finished: "pc (snd x) = Finished \<Longrightarrow> outcome p ident relative x = x"
  by (simp add: outcome_def)

lemma resumeTimes_outcome:
  assumes "pc (snd x) \<noteq> AwaitResolve" and "awaitsLeft p (snd x) \<le> n"
  shows "resumeTimes p ident relative n x = outcome p ident relative x"
proof -
  have "pc (snd (resumeTimes p ident relative n x)) = Finished"
    using assms(2) by (rule resumeTimes_finishes)
  then have "outcome p ident relative (resumeTimes p ident relative n x)
               = resumeTimes p ident relative n x"
    by (rule outcome_Finished)
  then show ?thesis
    using outcome_resumeTimes [OF assms(1), of p ident relative n] by simp
qed

lemma runToEnd_resolved:
  assumes "pc t0 = AwaitResolve" and "fonts (resolved p t0) = Some (font # later)"
  shows "runToEnd p ident relative (st, t0)
     = settled p (anyFallbacks p (fontFamily t0) (makeFallbackMap (fontFamily t0) (resolved p t0))
                    (font # later))
         (generated p ident relative t0)
         (st\<lparr>fontsToPreload := preload p ident (fontFamily t0) font (fontsToPreload st)\<rparr>,
          t0\<lparr>fallbackMap := makeFallbackMap (fontFamily t0) (resolved p t0),
             insertFontFamilies := False, prefaces := [], pc := AwaitFallbacks font later\<rparr>)"
proof -
  let ?fm = "makeFallbackMap (fontFamily t0) (resolved p t0)"
  let ?x = "(st\<lparr>fontsToPreload := preload p ident (fontFamily t0) font (fontsToPreload st)\<rparr>,
          t0\<lparr>fallbackMap := ?fm, insertFontFamilies := False, prefaces := [],
             pc := AwaitFallbacks font later\<rparr>)"
  have s: "step p ident relative (st, t0) = ?x"
    using assms by (simp add: step.simps)
  obtain m where m: "awaitsLeft p t0 = Suc m"
    using assms(1) by (simp add: awaitsLeft_def)
  have "awaitsLeft p (snd ?x) < awaitsLeft p t0"
    using step_decreases [of t0 p ident relative st] assms(1) s by simp
  then have le: "awaitsLeft p (snd ?x) \<le> m" using m by simp
  have "runToEnd p ident relative (st, t0) = resumeTimes p ident relative m ?x"
    using m s by (simp add: runToEnd_def)
  also have "\<dots> = outcome p ident relative ?x"
    by (rule resumeTimes_outcome) (use le in simp_all)
  also have "\<dots> = settled p (anyFallbacks p (fontFamily t0) ?fm (font # later))
                      (generated p ident relative t0) ?x"
  proof -
    have "declarations p ident relative
            (t0\<lparr>fallbackMap := ?fm, insertFontFamilies := False, prefaces := [],
                pc := AwaitFallbacks font later\<rparr>)
          = declarations p ident relative (t0\<lparr>fallbackMap := ?fm\<rparr>)"
      by (rule ext) (simp add: declarations_def fallbackDeclarations_def)
    then show ?thesis
      using assms(2) by (simp add: outcome_def generated_def)
  qed
  finally show ?thesis .
qed

lemma toString_prepend: "toString (prepend content m) = content @ toString m"
  by (simp add: toString_def prepend_def)


lemma runToEnd_unfold:
  "runToEnd p ident relative x
     = outcome p ident relative (if pc (snd x) = AwaitResolve then step p ident relative x else x)"
proof (cases "pc (snd x) = AwaitResolve")
  case True
  obtain st t where x: "x = (st, t)" by (cases x)
  obtain m where m: "awaitsLeft p t = Suc m"
    using True x by (simp add: awaitsLeft_def)
  have "awaitsLeft p (snd (step p ident relative (st, t))) < awaitsLeft p t"
    using step_decreases [of t p ident relative st] True x by simp
  then have le: "awaitsLeft p (snd (step p ident relative (st, t))) \<le> m"
    using m by simp
  have r: "pc (snd (step p ident relative (st, t))) \<noteq> AwaitResolve"
    using True x by (simp add: step.simps split: option.split list.split)
  have "runToEnd p ident relative x = resumeTimes p ident relative m (step p ident relative (st, t))"
    using m x by (simp add: runToEnd_def)
  also have "\<dots> = outcome p ident relative (step p ident relative (st, t))"
    using r le by (rule resumeTimes_outcome)
  finally show ?thesis using True x by simp
next
  case False
  then have "resumeTimes p ident relative (awaitsLeft p (snd x)) x = outcome p ident relative x"
    by (rule resumeTimes_outcome) simp
  then show ?thesis using False by (simp add: runToEnd_def)
qed

lemma runToEnd_step:
  "runToEnd p ident relative (step p ident relative x) = runToEnd p ident relative x"
proof (cases "pc (snd x) = AwaitResolve")
  case True
  obtain st t where x: "x = (st, t)" by (cases x)
  have "pc (snd (step p ident relative x)) \<noteq> AwaitResolve"
    using True x by (simp add: step.simps split: option.split list.split)
  then show ?thesis
    using True by (simp add: runToEnd_unfold)
next
  case False
  obtain st t where x: "x = (st, t)" by (cases x)
  have "pc (snd (step p ident relative x)) \<noteq> AwaitResolve"
    using False x by (simp add: resolved_step)
  then show ?thesis
    using False x by (simp add: runToEnd_unfold outcome_step)
qed

lemma single_task_run:
  "(case runSchedule p ident relative ns (st, [t]) of (st', ts) \<Rightarrow> settle p ident relative st' ts)
     = (case runToEnd p ident relative (st, t) of (st', t') \<Rightarrow> (st', [t']))"
proof (induction ns arbitrary: st t)
  case Nil
  then show ?case by (simp split: prod.split)
next
  case (Cons n ns)
  show ?case
  proof (cases n)
    case 0
    obtain st' t' where s: "step p ident relative (st, t) = (st', t')"
      by (cases "step p ident relative (st, t)")
    have "runToEnd p ident relative (st', t') = runToEnd p ident relative (st, t)"
      using runToEnd_step [of p ident relative "(st, t)"] s by simp
    then show ?thesis
      using 0 s Cons.IH [of st' t'] by simp
  next
    case (Suc k)
    then show ?thesis
      using Cons.IH [of st t] by simp
  qed
qed

lemma single_task_transformCSS:
  assumes "secondWalk p (firstWalk p (parse (deps p) code) []) (parse (deps p) code) = [t]"
  shows "transformCSS p schedule code ident relative registry
     = (edits (fst (runToEnd p ident relative
                      (\<lparr>edits = newMagicString code, injectedDeclarations = [],
                        fontsToPreload = registry\<rparr>, t))),
        fontsToPreload (fst (runToEnd p ident relative
                      (\<lparr>edits = newMagicString code, injectedDeclarations = [],
                        fontsToPreload = registry\<rparr>, t))))"
  using assms single_task_run [of p ident relative schedule
      "\<lparr>edits = newMagicString code, injectedDeclarations = [], fontsToPreload = registry\<rparr>" t]
  by (simp add: transformCSS_def rewrite_def split: prod.split)

text \<open>
  Claim C3. Take the task of a candidate declaration whose resolution has fonts. Its
  primary family \<open>F\<close> is the first extracted family, and its fallback map gives every
  resolved fallback font name \<open>f\<close> the name \<^verbatim>\<open>F Fallback: f\<close>.

  Run on its own from any shared state, the task queues exactly the declarations it
  generates (\<^verbatim>\<open>generateFontFace\<close> and \<^verbatim>\<open>generateFontFallbacks\<close> of every font) that are
  not injected yet, each minified or followed by a newline, adds them to the injected set
  and prepends them to the buffer. Then, when the value is not \<^verbatim>\<open>Raw\<close> and some font had
  fallback declarations, it calls \<^verbatim>\<open>prependLeft\<close> at the end of the first child with a
  comma, a space and the quoted names joined by comma and space. When the value is
  \<^verbatim>\<open>Raw\<close> only the prepend happens: the output is the queued declarations followed by the
  old output. Where the offset \<open>k\<close> is one magic-string anchors (\<open>0 < k\<close>, not past the
  end), the output is the queued declarations followed by the old output with the inserted
  text at the place of offset \<open>k\<close>.

  For a stylesheet whose only candidate is this declaration, \<^verbatim>\<open>transformCSS\<close> returns the
  buffer of that run, under every schedule. Among other tasks, however their steps are
  interleaved with its own, the step that ends the task makes the same two calls with the
  declarations the task has queued.
\<close>

theorem fallback_names_inserted:
  assumes "enter p existing node = Some t0"
    and "fonts (resolved p t0) = Some (font # later)"
  shows "(\<exists>others. extractFontFamilies (deps p) node = fontFamily t0 # others)
    \<and> fallbackMap (snd (runToEnd p ident relative (st0, t0)))
        = map (\<lambda>f. (f, fontFamily t0 @ '' Fallback: '' @ f))
            (case fallbacks (resolved p t0) of None \<Rightarrow> [] | Some fs \<Rightarrow> fs)
    \<and> prefaces (snd (runToEnd p ident relative (st0, t0))) = map (emitted p) (unseen (injectedDeclarations st0) (generated p ident relative t0))
    \<and> injectedDeclarations (fst (runToEnd p ident relative (st0, t0))) = injectedDeclarations st0 @ unseen (injectedDeclarations st0) (generated p ident relative t0)
    \<and> edits (fst (runToEnd p ident relative (st0, t0)))
        = (if \<not> isRaw (dvalue node) \<and>
              list_ex (\<lambda>font. generateFontFallbacks (deps p) (fontFamily t0) font
                                (fallbackMap (snd (runToEnd p ident relative (st0, t0)))) \<noteq> [])
                (font # later)
           then prependLeft (extractEndOfFirstChild (deps p) node)
                  ('', '' @ join '', '' (map (\<lambda>f. dq @ fontFamily t0 @ '' Fallback: '' @ f @ dq)
                               (case fallbacks (resolved p t0) of None \<Rightarrow> [] | Some fs \<Rightarrow> fs)))
                  (prepend (concat (map (emitted p) (unseen (injectedDeclarations st0) (generated p ident relative t0)))) (edits st0))
           else prepend (concat (map (emitted p) (unseen (injectedDeclarations st0) (generated p ident relative t0)))) (edits st0))
    \<and> (isRaw (dvalue node) \<longrightarrow>
          toString (edits (fst (runToEnd p ident relative (st0, t0)))) = concat (map (emitted p) (unseen (injectedDeclarations st0) (generated p ident relative t0))) @ toString (edits st0))
    \<and> (\<forall>k. \<not> isRaw (dvalue node) \<and>
            list_ex (\<lambda>font. generateFontFallbacks (deps p) (fontFamily t0) font
                              (fallbackMap (snd (runToEnd p ident relative (st0, t0)))) \<noteq> [])
              (font # later) \<and>
            extractEndOfFirstChild (deps p) node = Some k \<and> 0 < k \<and> k \<le> length (original (edits st0))
          \<longrightarrow> toString (edits (fst (runToEnd p ident relative (st0, t0))))
                = concat (map (emitted p) (unseen (injectedDeclarations st0) (generated p ident relative t0)))
                  @ intro (edits st0)
                  @ renderBefore (outro (edits st0)) 0 (take k (original (edits st0)))
                  @ ('', '' @ join '', '' (map (\<lambda>f. dq @ fontFamily t0 @ '' Fallback: '' @ f @ dq)
                               (case fallbacks (resolved p t0) of None \<Rightarrow> [] | Some fs \<Rightarrow> fs)))
                  @ render (outro (edits st0)) k (drop k (original (edits st0)))
              \<and> toString (edits st0)
                = intro (edits st0)
                  @ renderBefore (outro (edits st0)) 0 (take k (original (edits st0)))
                  @ render (outro (edits st0)) k (drop k (original (edits st0))))
    \<and> (\<forall>code schedule registry.
          secondWalk p (firstWalk p (parse (deps p) code) []) (parse (deps p) code) = [t0]
          \<longrightarrow> transformCSS p schedule code ident relative registry
                = (edits (fst (runToEnd p ident relative
                                 (\<lparr>edits = newMagicString code, injectedDeclarations = [],
                                   fontsToPreload = registry\<rparr>, t0))),
                   fontsToPreload (fst (runToEnd p ident relative
                                 (\<lparr>edits = newMagicString code, injectedDeclarations = [],
                                   fontsToPreload = registry\<rparr>, t0)))))
    \<and> (\<forall>t st. reaches (\<lambda>st. True) p ident relative t0 t \<and> pc t \<noteq> Finished
                \<and> pc (snd (step p ident relative (st, t))) = Finished
          \<longrightarrow> fallbackMap (snd (step p ident relative (st, t)))
                = map (\<lambda>f. (f, fontFamily t0 @ '' Fallback: '' @ f))
                    (case fallbacks (resolved p t0) of None \<Rightarrow> [] | Some fs \<Rightarrow> fs)
              \<and> edits (fst (step p ident relative (st, t)))
                = (if \<not> isRaw (dvalue node) \<and>
                      list_ex (\<lambda>font. generateFontFallbacks (deps p) (fontFamily t0) font
                                        (fallbackMap (snd (step p ident relative (st, t)))) \<noteq> [])
                        (font # later)
                   then prependLeft (extractEndOfFirstChild (deps p) node)
                          ('', '' @ join '', '' (map (\<lambda>f. dq @ fontFamily t0 @ '' Fallback: '' @ f @ dq)
                               (case fallbacks (resolved p t0) of None \<Rightarrow> [] | Some fs \<Rightarrow> fs)))
                          (prepend (concat (prefaces (snd (step p ident relative (st, t))))) (edits st))
                   else prepend (concat (prefaces (snd (step p ident relative (st, t))))) (edits st))
              \<and> (\<forall>k. \<not> isRaw (dvalue node) \<and>
                      list_ex (\<lambda>font. generateFontFallbacks (deps p) (fontFamily t0) font
                                        (fallbackMap (snd (step p ident relative (st, t)))) \<noteq> [])
                        (font # later) \<and>
                      extractEndOfFirstChild (deps p) node = Some k \<and> 0 < k
                      \<and> k \<le> length (original (edits st))
                    \<longrightarrow> toString (edits (fst (step p ident relative (st, t))))
                          = concat (prefaces (snd (step p ident relative (st, t))))
                            @ intro (edits st)
                            @ renderBefore (outro (edits st)) 0 (take k (original (edits st)))
                            @ ('', '' @ join '', '' (map (\<lambda>f. dq @ fontFamily t0 @ '' Fallback: '' @ f @ dq)
                               (case fallbacks (resolved p t0) of None \<Rightarrow> [] | Some fs \<Rightarrow> fs)))
                            @ render (outro (edits st)) k (drop k (original (edits st)))
                        \<and> toString (edits st)
                          = intro (edits st)
                            @ renderBefore (outro (edits st)) 0 (take k (original (edits st)))
                            @ render (outro (edits st)) k (drop k (original (edits st)))))"
proof -
  let ?fm = "makeFallbackMap (fontFamily t0) (resolved p t0)"
  let ?g = "anyFallbacks p (fontFamily t0) ?fm (font # later)"
  let ?new = "unseen (injectedDeclarations st0) (generated p ident relative t0)"
  let ?R = "runToEnd p ident relative (st0, t0)"
  let ?ins = "('', '' @ join '', '' (map (\<lambda>f. dq @ fontFamily t0 @ '' Fallback: '' @ f @ dq)
                               (case fallbacks (resolved p t0) of None \<Rightarrow> [] | Some fs \<Rightarrow> fs)))"
  let ?m = "prepend (concat (map (emitted p) ?new)) (edits st0)"
  note new = enter_newTask [OF assms(1)]
  have R: "?R = settled p ?g (generated p ident relative t0)
         (st0\<lparr>fontsToPreload := preload p ident (fontFamily t0) font (fontsToPreload st0)\<rparr>,
          t0\<lparr>fallbackMap := ?fm, insertFontFamilies := False, prefaces := [],
             pc := AwaitFallbacks font later\<rparr>)"
    using new(1) assms(2) by (rule runToEnd_resolved)
  have t': "prefaces (snd ?R) = map (emitted p) ?new"
    "injectedDeclarations (fst ?R) = injectedDeclarations st0 @ ?new"
    "fallbackMap (snd ?R) = ?fm"
    unfolding R by (simp_all add: settled_def)
  have e: "edits (fst ?R)
      = (case fallbackOptions t0 of
           None \<Rightarrow> ?m
         | Some fo \<Rightarrow> if ?g then prependLeft (fo_index fo) ('', '' @ insertedFamilies ?fm) ?m else ?m)"
    unfolding R by (simp add: settled_def spliceFamilies_def split: option.split)
  have fm: "?fm = map (\<lambda>f. (f, fontFamily t0 @ '' Fallback: '' @ f))
            (case fallbacks (resolved p t0) of None \<Rightarrow> [] | Some fs \<Rightarrow> fs)"
    by (simp add: makeFallbackMap_def split: option.splits)
  have g: "?g = list_ex (\<lambda>font. generateFontFallbacks (deps p) (fontFamily t0) font
                                   (fallbackMap (snd ?R)) \<noteq> [])
                (font # later)"
    unfolding t'(3) anyFallbacks_def by (rule refl)
  have txt': "'', '' @ insertedFamilies ?fm = ?ins"
    unfolding insertedFamilies_makeFallbackMap by (rule refl)
  have ed: "edits (fst ?R) = (if \<not> isRaw (dvalue node) \<and> ?g
         then prependLeft (extractEndOfFirstChild (deps p) node) ?ins ?m else ?m)"
    unfolding e txt' new(4) by simp
  have raw: "toString (edits (fst ?R)) = concat (map (emitted p) ?new) @ toString (edits st0)"
    if "isRaw (dvalue node)"
    using ed that by (simp add: toString_prepend)
  have pos: "toString (edits (fst ?R))
                = concat (map (emitted p) ?new) @ intro (edits st0)
                  @ renderBefore (outro (edits st0)) 0 (take k (original (edits st0)))
                  @ ?ins @ render (outro (edits st0)) k (drop k (original (edits st0)))
              \<and> toString (edits st0)
                = intro (edits st0)
                  @ renderBefore (outro (edits st0)) 0 (take k (original (edits st0)))
                  @ render (outro (edits st0)) k (drop k (original (edits st0)))"
    if k: "\<not> isRaw (dvalue node)" "?g" "extractEndOfFirstChild (deps p) node = Some k"
      "0 < k" "k \<le> length (original (edits st0))" for k
  proof -
    have a: "k \<le> length (original ?m)" "0 < k \<or> original ?m = []"
      using k by (simp_all add: prepend_def)
    have "edits (fst ?R) = prependLeft (Some k) ?ins ?m"
      using ed k by simp
    then have "toString (edits (fst ?R)) = intro ?m @ renderBefore (outro ?m) 0 (take k (original ?m))
        @ ?ins @ render (outro ?m) k (drop k (original ?m))"
      using toString_prependLeft(2) [OF a] by simp
    moreover have "toString (edits st0) = intro (edits st0)
        @ renderBefore (outro (edits st0)) 0 (take k (original (edits st0)))
        @ render (outro (edits st0)) k (drop k (original (edits st0)))"
      using toString_prependLeft(1) [of k "edits st0"] k by simp
    ultimately show ?thesis by (simp add: prepend_def)
  qed
  have fmap: "fallbackMap (snd ?R) = map (\<lambda>f. (f, fontFamily t0 @ '' Fallback: '' @ f))
            (case fallbacks (resolved p t0) of None \<Rightarrow> [] | Some fs \<Rightarrow> fs)"
    using t'(3) fm by (rule trans)
  have last: "fallbackMap (snd (step p ident relative (st, t)))
                = map (\<lambda>f. (f, fontFamily t0 @ '' Fallback: '' @ f))
                    (case fallbacks (resolved p t0) of None \<Rightarrow> [] | Some fs \<Rightarrow> fs)
              \<and> edits (fst (step p ident relative (st, t)))
                = (if \<not> isRaw (dvalue node) \<and>
                      list_ex (\<lambda>font. generateFontFallbacks (deps p) (fontFamily t0) font
                                        (fallbackMap (snd (step p ident relative (st, t)))) \<noteq> [])
                        (font # later)
                   then prependLeft (extractEndOfFirstChild (deps p) node)
                          ?ins
                          (prepend (concat (prefaces (snd (step p ident relative (st, t))))) (edits st))
                   else prepend (concat (prefaces (snd (step p ident relative (st, t))))) (edits st))
              \<and> (\<forall>k. \<not> isRaw (dvalue node) \<and>
                      list_ex (\<lambda>font. generateFontFallbacks (deps p) (fontFamily t0) font
                                        (fallbackMap (snd (step p ident relative (st, t)))) \<noteq> [])
                        (font # later) \<and>
                      extractEndOfFirstChild (deps p) node = Some k \<and> 0 < k
                      \<and> k \<le> length (original (edits st))
                    \<longrightarrow> toString (edits (fst (step p ident relative (st, t))))
                          = concat (prefaces (snd (step p ident relative (st, t))))
                            @ intro (edits st)
                            @ renderBefore (outro (edits st)) 0 (take k (original (edits st)))
                            @ ?ins
                            @ render (outro (edits st)) k (drop k (original (edits st)))
                        \<and> toString (edits st)
                          = intro (edits st)
                            @ renderBefore (outro (edits st)) 0 (take k (original (edits st)))
                            @ render (outro (edits st)) k (drop k (original (edits st))))"
    if "reaches (\<lambda>st. True) p ident relative t0 t" "pc t \<noteq> Finished"
      "pc (snd (step p ident relative (st, t))) = Finished" for t st
    using last_step_inserts [OF assms that] by blast
  show ?thesis
    unfolding t'(1,2)
    apply (intro conjI allI impI)
    subgoal by (rule new(3))
    subgoal by (rule fmap)
    subgoal by (rule refl)
    subgoal by (rule refl)
    subgoal using ed unfolding g by simp
    subgoal using raw by simp
    subgoal using pos unfolding g by blast
    subgoal using pos unfolding g by blast
    subgoal by (rule single_task_transformCSS)
    subgoal using last by blast
    subgoal using last by blast
    subgoal using last by blast
    subgoal using last by blast
    done
qed


theorem fallback_names_inserted_witness:
  \<open>toString (fst (transformCSS variablesPlugin [0, 0] variableCss ''a.css'' True emptyRegistry))
     = ''@font-face{font-family:Foo;src:url(/fonts/foo.woff2)}'' @ newline
       @ ''@font-face{font-family:Foo Fallback: Arial;src:local(Arial)}'' @ newline
       @ ''a{--f:"Foo"}''
   \<and> toString (fst (transformCSS devPlugin [0] declaredCss ''a.css'' True emptyRegistry))
     = ''@font-face{font-family:Foo;src:url(/fonts/foo.woff2)}'' @ newline
       @ ''@font-face{font-family:Foo Fallback: Arial;src:local(Arial)}'' @ newline
       @ ''@font-face{font-family:"Foo"}a{font-family:"Foo", "Foo Fallback: Arial"}''
   \<and> fallbackMap (snd (step devPlugin ''a.css'' True (fst firstResolved, snd firstResolved)))
     = [(''Arial'', ''Foo Fallback: Arial'')]
   \<and> edits (fst (step devPlugin ''a.css'' True (fst firstResolved, snd firstResolved)))
     = prependLeft (Some 19) ('', '' @ dq @ ''Foo Fallback: Arial'' @ dq)
         (prepend (concat (prefaces (snd (step devPlugin ''a.css'' True
                                            (fst firstResolved, snd firstResolved)))))
            (edits (fst firstResolved)))\<close>
proof -
  have f: "fontFamily rawTask = ''Foo''" "fontFamily lateTask = ''Foo''" "fontFamily firstTask = ''Foo''"
    "(case fallbacks (resolved variablesPlugin rawTask) of None \<Rightarrow> [] | Some fs \<Rightarrow> fs) = [''Arial'']"
    "(case fallbacks (resolved devPlugin lateTask) of None \<Rightarrow> [] | Some fs \<Rightarrow> fs) = [''Arial'']"
    "(case fallbacks (resolved devPlugin firstTask) of None \<Rightarrow> [] | Some fs \<Rightarrow> fs) = [''Arial'']"
    "generateFontFallbacks (deps devPlugin) ''Foo'' fooFont [(''Arial'', ''Foo Fallback: Arial'')] \<noteq> []"
    by (simp_all add: resolved_def rawTask_def lateTask_def firstTask_def newTask_def demo_defs)
  have raw: "enter variablesPlugin [] (variableAst ! 0) = Some rawTask"
    "fonts (resolved variablesPlugin rawTask) = Some (fooFont # [])"
    "isRaw (dvalue (variableAst ! 0))"
    "secondWalk variablesPlugin
       (firstWalk variablesPlugin (parse (deps variablesPlugin) variableCss) [])
       (parse (deps variablesPlugin) variableCss) = [rawTask]"
    by (simp_all add: enter_def returnsEarly_def rawTask_def parentOffset_def resolved_def
        newTask_def secondWalk_def List.map_filter_simps collectsExisting_def startsWith_def
        truthy_def demo_defs)
  have late: "enter devPlugin [] (declaredAst ! 1) = Some lateTask"
    "fonts (resolved devPlugin lateTask) = Some (fooFont # [])"
    "\<not> isRaw (dvalue (declaredAst ! 1))"
    "extractEndOfFirstChild (deps devPlugin) (declaredAst ! 1) = Some 48"
    "secondWalk devPlugin
       (firstWalk devPlugin (parse (deps devPlugin) declaredCss) [])
       (parse (deps devPlugin) declaredCss) = [lateTask]"
    "(0::nat) < 48 \<and> 48 \<le> length (original (edits (startState declaredCss)))"
    by (simp_all add: enter_def returnsEarly_def lateTask_def parentOffset_def resolved_def
        newTask_def secondWalk_def List.map_filter_simps collectsExisting_def startsWith_def
        startState_def newMagicString_def demo_defs)
  have first: "enter devPlugin [] (twiceAst ! 0) = Some firstTask"
    "fonts (resolved devPlugin firstTask) = Some (fooFont # [])"
    "isRaw (dvalue (twiceAst ! 0)) = False"
    "extractEndOfFirstChild (deps devPlugin) (twiceAst ! 0) = Some 19"
    by (simp_all add: enter_def returnsEarly_def firstTask_def parentOffset_def resolved_def
        newTask_def demo_defs)
  have c: "reaches (\<lambda>st. True) devPlugin ''a.css'' True firstTask (snd firstResolved)"
    unfolding firstResolved_def by (rule reaches.resume [OF reaches.start]) simp
  have d: "pc (snd firstResolved) \<noteq> Finished"
    by code_simp
  have e: "pc (snd (step devPlugin ''a.css'' True (fst firstResolved, snd firstResolved))) = Finished"
    by code_simp
  have start: "startState variableCss
                 = \<lparr>edits = newMagicString variableCss, injectedDeclarations = [],
                    fontsToPreload = emptyRegistry\<rparr>"
    "startState declaredCss
                 = \<lparr>edits = newMagicString declaredCss, injectedDeclarations = [],
                    fontsToPreload = emptyRegistry\<rparr>"
    by (simp_all add: startState_def)
  have rawText:
    \<open>concat (map (emitted variablesPlugin)
               (unseen (injectedDeclarations (startState variableCss))
                  (generated variablesPlugin ''a.css'' True rawTask)))
       @ toString (edits (startState variableCss))
     = ''@font-face{font-family:Foo;src:url(/fonts/foo.woff2)}'' @ newline
       @ ''@font-face{font-family:Foo Fallback: Arial;src:local(Arial)}'' @ newline
       @ ''a{--f:"Foo"}''\<close>
    by code_simp
  have lateText:
    \<open>concat (map (emitted devPlugin)
               (unseen (injectedDeclarations (startState declaredCss))
                  (generated devPlugin ''a.css'' True lateTask)))
       @ intro (edits (startState declaredCss))
       @ renderBefore (outro (edits (startState declaredCss))) 0
           (take 48 (original (edits (startState declaredCss))))
       @ ('', '' @ join '', '' (map (\<lambda>f. dq @ ''Foo'' @ '' Fallback: '' @ f @ dq) [''Arial'']))
       @ render (outro (edits (startState declaredCss))) 48
           (drop 48 (original (edits (startState declaredCss))))
     = ''@font-face{font-family:Foo;src:url(/fonts/foo.woff2)}'' @ newline
       @ ''@font-face{font-family:Foo Fallback: Arial;src:local(Arial)}'' @ newline
       @ ''@font-face{font-family:"Foo"}a{font-family:"Foo", "Foo Fallback: Arial"}''\<close>
    by code_simp
  note R = fallback_names_inserted [OF raw(1,2), where ident = "''a.css''" and relative = True
      and ?st0.0 = "startState variableCss"]
  note L = fallback_names_inserted [OF late(1,2), where ident = "''a.css''" and relative = True
      and ?st0.0 = "startState declaredCss"]
  note F = fallback_names_inserted [OF first(1,2), where ident = "''a.css''" and relative = True
      and ?st0.0 = "startState twiceCss"]
  have one: "toString (fst (transformCSS variablesPlugin [0, 0] variableCss ''a.css'' True emptyRegistry))
     = concat (map (emitted variablesPlugin)
               (unseen (injectedDeclarations (startState variableCss))
                  (generated variablesPlugin ''a.css'' True rawTask)))
       @ toString (edits (startState variableCss))"
  proof -
    have "toString (edits (fst (runToEnd variablesPlugin ''a.css'' True
                                  (startState variableCss, rawTask))))
     = concat (map (emitted variablesPlugin)
               (unseen (injectedDeclarations (startState variableCss))
                  (generated variablesPlugin ''a.css'' True rawTask)))
       @ toString (edits (startState variableCss))"
      using R raw(3) by blast
    moreover have "transformCSS variablesPlugin [0, 0] variableCss ''a.css'' True emptyRegistry
     = (edits (fst (runToEnd variablesPlugin ''a.css'' True (startState variableCss, rawTask))),
        fontsToPreload (fst (runToEnd variablesPlugin ''a.css'' True
                               (startState variableCss, rawTask))))"
      unfolding start(1) using R raw(4) by blast
    ultimately show ?thesis by simp
  qed
  have fb: "fallbackMap (snd (runToEnd devPlugin ''a.css'' True (startState declaredCss, lateTask)))
              = [(''Arial'', ''Foo Fallback: Arial'')]"
  proof -
    have "fallbackMap (snd (runToEnd devPlugin ''a.css'' True (startState declaredCss, lateTask)))
        = map (\<lambda>f. (f, fontFamily lateTask @ '' Fallback: '' @ f))
            (case fallbacks (resolved devPlugin lateTask) of None \<Rightarrow> [] | Some fs \<Rightarrow> fs)"
      using L by blast
    then show ?thesis by (simp add: f)
  qed
  have two: "toString (fst (transformCSS devPlugin [0] declaredCss ''a.css'' True emptyRegistry))
     = concat (map (emitted devPlugin)
               (unseen (injectedDeclarations (startState declaredCss))
                  (generated devPlugin ''a.css'' True lateTask)))
       @ intro (edits (startState declaredCss))
       @ renderBefore (outro (edits (startState declaredCss))) 0
           (take 48 (original (edits (startState declaredCss))))
       @ ('', '' @ join '', '' (map (\<lambda>f. dq @ ''Foo'' @ '' Fallback: '' @ f @ dq) [''Arial'']))
       @ render (outro (edits (startState declaredCss))) 48
           (drop 48 (original (edits (startState declaredCss))))"
  proof -
    have g: "list_ex (\<lambda>font. generateFontFallbacks (deps devPlugin) (fontFamily lateTask) font
               (fallbackMap (snd (runToEnd devPlugin ''a.css'' True
                                    (startState declaredCss, lateTask)))) \<noteq> [])
               (fooFont # [])"
      unfolding fb by (simp add: f)
    have "toString (edits (fst (runToEnd devPlugin ''a.css'' True
                                  (startState declaredCss, lateTask))))
     = concat (map (emitted devPlugin)
               (unseen (injectedDeclarations (startState declaredCss))
                  (generated devPlugin ''a.css'' True lateTask)))
       @ intro (edits (startState declaredCss))
       @ renderBefore (outro (edits (startState declaredCss))) 0
           (take 48 (original (edits (startState declaredCss))))
       @ ('', '' @ join '', '' (map (\<lambda>f. dq @ fontFamily lateTask @ '' Fallback: '' @ f @ dq)
                    (case fallbacks (resolved devPlugin lateTask) of None \<Rightarrow> [] | Some fs \<Rightarrow> fs)))
       @ render (outro (edits (startState declaredCss))) 48
           (drop 48 (original (edits (startState declaredCss))))"
      using L late(3,4,6) g by blast
    moreover have "transformCSS devPlugin [0] declaredCss ''a.css'' True emptyRegistry
     = (edits (fst (runToEnd devPlugin ''a.css'' True (startState declaredCss, lateTask))),
        fontsToPreload (fst (runToEnd devPlugin ''a.css'' True
                               (startState declaredCss, lateTask))))"
      unfolding start(2) using L late(5) by blast
    ultimately show ?thesis by (simp add: f)
  qed
  have three: "fallbackMap (snd (step devPlugin ''a.css'' True (fst firstResolved, snd firstResolved)))
     = [(''Arial'', ''Foo Fallback: Arial'')]
   \<and> edits (fst (step devPlugin ''a.css'' True (fst firstResolved, snd firstResolved)))
     = prependLeft (Some 19) ('', '' @ dq @ ''Foo Fallback: Arial'' @ dq)
         (prepend (concat (prefaces (snd (step devPlugin ''a.css'' True
                                            (fst firstResolved, snd firstResolved)))))
            (edits (fst firstResolved)))"
  proof -
    have "fallbackMap (snd (step devPlugin ''a.css'' True (fst firstResolved, snd firstResolved)))
                = map (\<lambda>f. (f, fontFamily firstTask @ '' Fallback: '' @ f))
                    (case fallbacks (resolved devPlugin firstTask) of None \<Rightarrow> [] | Some fs \<Rightarrow> fs)
              \<and> edits (fst (step devPlugin ''a.css'' True (fst firstResolved, snd firstResolved)))
                = (if \<not> isRaw (dvalue (twiceAst ! 0)) \<and>
                      list_ex (\<lambda>font. generateFontFallbacks (deps devPlugin) (fontFamily firstTask) font
                                        (fallbackMap (snd (step devPlugin ''a.css'' True
                                            (fst firstResolved, snd firstResolved)))) \<noteq> [])
                        (fooFont # [])
                   then prependLeft (extractEndOfFirstChild (deps devPlugin) (twiceAst ! 0))
                          ('', '' @ join '', '' (map (\<lambda>f. dq @ fontFamily firstTask @ '' Fallback: '' @ f @ dq)
                               (case fallbacks (resolved devPlugin firstTask) of None \<Rightarrow> [] | Some fs \<Rightarrow> fs)))
                          (prepend (concat (prefaces (snd (step devPlugin ''a.css'' True
                                            (fst firstResolved, snd firstResolved))))) (edits (fst firstResolved)))
                   else prepend (concat (prefaces (snd (step devPlugin ''a.css'' True
                                            (fst firstResolved, snd firstResolved))))) (edits (fst firstResolved)))"
      using F c d e by blast
    then show ?thesis by (simp add: f first(3,4))
  qed
  show ?thesis
    using one two three unfolding rawText lateText by simp
qed

section \<open>A task that finds everything injected\<close>

lemma declarationsLoop_covered:
  "set ds \<subseteq> set (injectedDeclarations st) \<Longrightarrow>
   declarationsLoop p h later ds (st, t) = afterFont h later (st, t)"
  by (induction ds) simp_all

lemma prepend_nothing: "prepend [] m = m"
  by (simp add: prepend_def)

lemma declarations_tracked:
  "fontFamily t = fontFamily t0 \<Longrightarrow> fallbackMap t = fm \<Longrightarrow>
   declarations p ident relative t font = declarations p ident relative (t0\<lparr>fallbackMap := fm\<rparr>) font"
  by (simp add: declarations_def fallbackDeclarations_def)

lemma quiet_step:
  assumes tr: "tracks p t0 fm g t" and q: "quiet p t0 t"
    and cover: "set (generated p ident relative t0) \<subseteq> set (injectedDeclarations st)"
    and fonts: "fonts (resolved p t0) = Some (f # fs)"
    and fm: "fm = makeFallbackMap (fontFamily t0) (resolved p t0)"
  shows "quiet p t0 (snd (step p ident relative (st, t)))
         \<and> injectedDeclarations (fst (step p ident relative (st, t))) = injectedDeclarations st"
proof (cases "pc t")
  case AwaitResolve
  have "fontFamily t = fontFamily t0" "fallbackOptions t = fallbackOptions t0"
    using tr by (simp_all add: tracks_def)
  then have "resolved p t = resolved p t0"
    by (rule resolved_same)
  then show ?thesis
    using AwaitResolve fonts by (auto simp: step.simps quiet_def)
next
  case (AwaitFallbacks font later)
  have t: "fontFamily t = fontFamily t0" "fallbackMap t = fm"
    using tr AwaitFallbacks by (simp_all add: tracks_def)
  have pre: "prefaces t = []" and sub: "set (font # later) \<subseteq> set (f # fs)"
    using q AwaitFallbacks fonts by (simp_all add: quiet_def)
  have "declarations p ident relative t font
          = declarations p ident relative (t0\<lparr>fallbackMap := fm\<rparr>) font"
    using t by (rule declarations_tracked)
  moreover have "font \<in> set (f # fs)" using sub by simp
  ultimately have "set (declarations p ident relative t font) \<subseteq> set (generated p ident relative t0)"
    using fonts unfolding generated_def fm by auto
  then have "set (declarations p ident relative t font) \<subseteq> set (injectedDeclarations st)"
    using cover by (rule subset_trans)
  then have "step p ident relative (st, t)
      = afterFont (fallbackDeclarations p t font \<noteq> []) later (st, t)"
    using AwaitFallbacks by (simp add: step.simps declarationsLoop_covered)
  then show ?thesis
    using pre sub fonts by (cases later) (auto simp: quiet_def)
next
  case (AwaitTransform d ds h later)
  then show ?thesis using q by (simp add: quiet_def)
next
  case Finished
  then show ?thesis using q by (simp add: step.simps)
qed

lemma quiet_reaches:
  assumes "reaches (\<lambda>st. set (generated p ident relative t0) \<subseteq> set (injectedDeclarations st))
             p ident relative t0 t"
    and "pc t0 = AwaitResolve" and "fonts (resolved p t0) = Some (f # fs)"
  shows "quiet p t0 t"
  using assms
proof (induction rule: reaches.induct)
  case start
  then show ?case by (simp add: quiet_def)
next
  case (resume t st)
  have "tracks p t0 (makeFallbackMap (fontFamily t0) (resolved p t0))
           (anyFallbacks p (fontFamily t0) (makeFallbackMap (fontFamily t0) (resolved p t0)) (f # fs)) t"
    using resume.hyps(1) resume.prems by (rule tracks_reaches)
  moreover have "quiet p t0 t"
    using resume.IH resume.prems by simp
  ultimately show ?case
    using resume.hyps(2) resume.prems(2) quiet_step by blast
qed

text \<open>
  Claim C10. Take the task of a candidate declaration with a parsed value, whose
  resolution has fonts of which some has fallback declarations, and let every declaration
  it generates be in the injected set already, whenever it is resumed. At the step that
  ends it, it has queued nothing and the injected set is as before, but the quoted
  fallback names are still inserted with \<^verbatim>\<open>prependLeft\<close> at the candidate's offset; where
  magic-string anchors that offset the intro, and so the text in front of the stylesheet,
  is unchanged, and for an offset \<open>k\<close> inside the text (\<open>0 < k\<close>, not past the end) the
  new output is the old output with the comma, the space and the quoted names standing at
  the place of offset \<open>k\<close>.
\<close>

theorem names_inserted_without_new_declarations:
  assumes "enter p existing node = Some t0"
    and "\<not> isRaw (dvalue node)"
    and "fonts (resolved p t0) = Some (font # later)"
    and "list_ex (\<lambda>font. generateFontFallbacks (deps p) (fontFamily t0) font
                           (makeFallbackMap (fontFamily t0) (resolved p t0)) \<noteq> [])
           (font # later)"
    and "reaches (\<lambda>st. set (generated p ident relative t0) \<subseteq> set (injectedDeclarations st))
           p ident relative t0 t"
    and "set (generated p ident relative t0) \<subseteq> set (injectedDeclarations st)"
    and "pc t \<noteq> Finished"
    and "pc (snd (step p ident relative (st, t))) = Finished"
  shows "prefaces (snd (step p ident relative (st, t))) = []
    \<and> injectedDeclarations (fst (step p ident relative (st, t))) = injectedDeclarations st
    \<and> edits (fst (step p ident relative (st, t)))
        = prependLeft (extractEndOfFirstChild (deps p) node)
            ('', '' @ join '', '' (map (\<lambda>f. dq @ fontFamily t0 @ '' Fallback: '' @ f @ dq)
                         (case fallbacks (resolved p t0) of None \<Rightarrow> [] | Some fs \<Rightarrow> fs)))
            (edits st)
    \<and> (anchored (edits st) (extractEndOfFirstChild (deps p) node) \<longrightarrow>
          intro (edits (fst (step p ident relative (st, t)))) = intro (edits st))
    \<and> (\<forall>k. extractEndOfFirstChild (deps p) node = Some k \<and> 0 < k
            \<and> k \<le> length (original (edits st))
          \<longrightarrow> toString (edits (fst (step p ident relative (st, t))))
                = intro (edits st)
                  @ renderBefore (outro (edits st)) 0 (take k (original (edits st)))
                  @ ('', '' @ join '', '' (map (\<lambda>f. dq @ fontFamily t0 @ '' Fallback: '' @ f @ dq)
                               (case fallbacks (resolved p t0) of None \<Rightarrow> [] | Some fs \<Rightarrow> fs)))
                  @ render (outro (edits st)) k (drop k (original (edits st)))
              \<and> toString (edits st)
                = intro (edits st)
                  @ renderBefore (outro (edits st)) 0 (take k (original (edits st)))
                  @ render (outro (edits st)) k (drop k (original (edits st))))"
proof -
  let ?fm = "makeFallbackMap (fontFamily t0) (resolved p t0)"
  let ?g = "anyFallbacks p (fontFamily t0) ?fm (font # later)"
  let ?st' = "fst (step p ident relative (st, t))" and ?t' = "snd (step p ident relative (st, t))"
  let ?ins = "'', '' @ join '', '' (map (\<lambda>f. dq @ fontFamily t0 @ '' Fallback: '' @ f @ dq)
                  (case fallbacks (resolved p t0) of None \<Rightarrow> [] | Some fs \<Rightarrow> fs))"
  note new = enter_newTask [OF assms(1)]
  have g: "?g" using assms(4) by (simp add: anyFallbacks_def)
  have tr: "tracks p t0 ?fm ?g t"
    using assms(5) new(1) assms(3) by (rule tracks_reaches)
  then have tr': "tracks p t0 ?fm ?g ?t'"
    using assms(3) by (rule tracks_step) (rule refl)+
  have t': "fallbackOptions ?t' = fallbackOptions t0" "fallbackMap ?t' = ?fm"
    "insertFontFamilies ?t' = ?g"
    using tr' assms(8) by (simp_all add: tracks_def)
  have q: "quiet p t0 t"
    using assms(5) new(1) assms(3) by (rule quiet_reaches)
  from quiet_step [OF tr q assms(6) assms(3) refl]
  have q': "quiet p t0 ?t'" and inj: "injectedDeclarations ?st' = injectedDeclarations st"
    by simp_all
  have pre: "prefaces ?t' = []"
    using q' assms(8) by (simp add: quiet_def)
  have "fontFamily t = fontFamily t0" "fallbackOptions t = fallbackOptions t0"
    using tr by (simp_all add: tracks_def)
  then have "resolved p t = resolved p t0"
    by (rule resolved_same)
  then have "fonts (resolved p t) = Some (font # later)"
    using assms(3) by simp
  with assms(7,8) have "edits ?st' = spliceFamilies ?t' (prepend (concat (prefaces ?t')) (edits st))"
    by (rule finished_step)
  then have e: "edits ?st' = spliceFamilies ?t' (edits st)"
    by (simp add: pre prepend_nothing)
  have txt': "'', '' @ insertedFamilies (fallbackMap ?t') = ?ins"
    unfolding t'(2) insertedFamilies_makeFallbackMap by (rule refl)
  have "spliceFamilies ?t' (edits st)
      = prependLeft (extractEndOfFirstChild (deps p) node) ?ins (edits st)"
    unfolding spliceFamilies_def t'(1) t'(3) txt' new(4) using g assms(2) by simp
  with e have ed: "edits ?st' = prependLeft (extractEndOfFirstChild (deps p) node) ?ins (edits st)"
    by (rule trans)
  have front: "intro (edits ?st') = intro (edits st)"
    if "anchored (edits st) (extractEndOfFirstChild (deps p) node)"
    using that unfolding ed by (simp add: prependLeft_def)
  have pos: "toString (edits ?st')
                = intro (edits st)
                  @ renderBefore (outro (edits st)) 0 (take k (original (edits st)))
                  @ ?ins @ render (outro (edits st)) k (drop k (original (edits st)))
              \<and> toString (edits st)
                = intro (edits st)
                  @ renderBefore (outro (edits st)) 0 (take k (original (edits st)))
                  @ render (outro (edits st)) k (drop k (original (edits st)))"
    if k: "extractEndOfFirstChild (deps p) node = Some k" "0 < k"
      "k \<le> length (original (edits st))" for k
  proof -
    have a: "k \<le> length (original (edits st))" "0 < k \<or> original (edits st) = []"
      using k by simp_all
    have "edits ?st' = prependLeft (Some k) ?ins (edits st)"
      using ed k(1) by simp
    then show ?thesis
      using toString_prependLeft(1) [OF a] toString_prependLeft(2) [OF a, of ?ins] by simp
  qed
  show ?thesis
    apply (intro conjI allI impI)
    subgoal by (rule pre)
    subgoal by (rule inj)
    subgoal by (rule ed)
    subgoal by (rule front)
    subgoal using pos by blast
    subgoal using pos by blast
    done
qed

theorem names_inserted_without_new_declarations_witness:
  \<open>injectedDeclarations (fst (step devPlugin ''a.css'' True (fst secondResolved, snd secondResolved)))
     = injectedDeclarations (fst secondResolved)
   \<and> edits (fst (step devPlugin ''a.css'' True (fst secondResolved, snd secondResolved)))
     = prependLeft (Some 51) ('', '' @ dq @ ''Foo Fallback: Arial'' @ dq) (edits (fst secondResolved))
   \<and> intro (edits (fst (step devPlugin ''a.css'' True (fst secondResolved, snd secondResolved))))
     = intro (edits (fst secondResolved))
   \<and> toString (edits (fst secondResolved))
     = ''@font-face{font-family:Foo;src:url(/fonts/foo.woff2)}'' @ newline
       @ ''@font-face{font-family:Foo Fallback: Arial;src:local(Arial)}'' @ newline
       @ ''a{font-family:"Foo", "Foo Fallback: Arial", sans-serif}''
       @ ''b{font-family:"Foo", sans-serif}''
   \<and> toString (edits (fst (step devPlugin ''a.css'' True (fst secondResolved, snd secondResolved))))
     = ''@font-face{font-family:Foo;src:url(/fonts/foo.woff2)}'' @ newline
       @ ''@font-face{font-family:Foo Fallback: Arial;src:local(Arial)}'' @ newline
       @ ''a{font-family:"Foo", "Foo Fallback: Arial", sans-serif}''
       @ ''b{font-family:"Foo", "Foo Fallback: Arial", sans-serif}''\<close>
proof -
  let ?P = "\<lambda>st. set (generated devPlugin ''a.css'' True secondTask) \<subseteq> set (injectedDeclarations st)"
  have a: "enter devPlugin [] (twiceAst ! 1) = Some secondTask"
    by (simp add: enter_def returnsEarly_def secondTask_def parentOffset_def demo_defs)
  have n: "\<not> isRaw (dvalue (twiceAst ! 1))"
    by (simp add: twiceAst_def)
  have b: "fonts (resolved devPlugin secondTask) = Some (fooFont # [])"
    by (simp add: resolved_def secondTask_def newTask_def devPlugin_def fooOptions_def)
  have l: "list_ex (\<lambda>font. generateFontFallbacks (deps devPlugin) (fontFamily secondTask) font
                           (makeFallbackMap (fontFamily secondTask) (resolved devPlugin secondTask)) \<noteq> [])
           (fooFont # [])"
    by (simp add: resolved_def secondTask_def newTask_def makeFallbackMap_def devPlugin_def
        fooOptions_def fooImports_def)
  have p1: "?P (fst (step devPlugin ''a.css'' True firstResolved))"
    by code_simp
  have c: "reaches ?P devPlugin ''a.css'' True secondTask (snd secondResolved)"
    unfolding secondResolved_def by (rule reaches.resume [OF reaches.start]) (rule p1)
  have p2: "?P (fst secondResolved)"
    by code_simp
  have d: "pc (snd secondResolved) \<noteq> Finished"
    by code_simp
  have e: "pc (snd (step devPlugin ''a.css'' True (fst secondResolved, snd secondResolved))) = Finished"
    by code_simp
  have f: "(case fallbacks (resolved devPlugin secondTask) of None \<Rightarrow> [] | Some fs \<Rightarrow> fs) = [''Arial'']"
    "fontFamily secondTask = ''Foo''"
    "extractEndOfFirstChild (deps devPlugin) (twiceAst ! Suc 0) = Some 51"
    by (simp_all add: resolved_def secondTask_def newTask_def demo_defs)
  have f1: "extractEndOfFirstChild (deps devPlugin) (twiceAst ! 1) = Some 51"
    using f(3) by simp
  have k: "anchored (edits (fst secondResolved)) (Some 51)"
    by code_simp
  have len: "(0::nat) < 51 \<and> 51 \<le> length (original (edits (fst secondResolved)))"
    by code_simp
  have before:
    \<open>intro (edits (fst secondResolved))
       @ renderBefore (outro (edits (fst secondResolved))) 0
           (take 51 (original (edits (fst secondResolved))))
       @ render (outro (edits (fst secondResolved))) 51
           (drop 51 (original (edits (fst secondResolved))))
     = ''@font-face{font-family:Foo;src:url(/fonts/foo.woff2)}'' @ newline
       @ ''@font-face{font-family:Foo Fallback: Arial;src:local(Arial)}'' @ newline
       @ ''a{font-family:"Foo", "Foo Fallback: Arial", sans-serif}''
       @ ''b{font-family:"Foo", sans-serif}''\<close>
    by code_simp
  have after:
    \<open>intro (edits (fst secondResolved))
       @ renderBefore (outro (edits (fst secondResolved))) 0
           (take 51 (original (edits (fst secondResolved))))
       @ ('', '' @ join '', '' (map (\<lambda>f. dq @ ''Foo'' @ '' Fallback: '' @ f @ dq) [''Arial'']))
       @ render (outro (edits (fst secondResolved))) 51
           (drop 51 (original (edits (fst secondResolved))))
     = ''@font-face{font-family:Foo;src:url(/fonts/foo.woff2)}'' @ newline
       @ ''@font-face{font-family:Foo Fallback: Arial;src:local(Arial)}'' @ newline
       @ ''a{font-family:"Foo", "Foo Fallback: Arial", sans-serif}''
       @ ''b{font-family:"Foo", "Foo Fallback: Arial", sans-serif}''\<close>
    by code_simp
  note T = names_inserted_without_new_declarations [OF a n b l c p2 d e]
  have out: "toString (edits (fst (step devPlugin ''a.css'' True
                                     (fst secondResolved, snd secondResolved))))
                = intro (edits (fst secondResolved))
                  @ renderBefore (outro (edits (fst secondResolved))) 0
                      (take 51 (original (edits (fst secondResolved))))
                  @ ('', '' @ join '', '' (map (\<lambda>f. dq @ fontFamily secondTask @ '' Fallback: '' @ f @ dq)
                               (case fallbacks (resolved devPlugin secondTask) of
                                  None \<Rightarrow> [] | Some fs \<Rightarrow> fs)))
                  @ render (outro (edits (fst secondResolved))) 51
                      (drop 51 (original (edits (fst secondResolved))))
              \<and> toString (edits (fst secondResolved))
                = intro (edits (fst secondResolved))
                  @ renderBefore (outro (edits (fst secondResolved))) 0
                      (take 51 (original (edits (fst secondResolved))))
                  @ render (outro (edits (fst secondResolved))) 51
                      (drop 51 (original (edits (fst secondResolved))))"
    using T f1 len by blast
  have rest: "injectedDeclarations (fst (step devPlugin ''a.css'' True (fst secondResolved, snd secondResolved)))
     = injectedDeclarations (fst secondResolved)
   \<and> edits (fst (step devPlugin ''a.css'' True (fst secondResolved, snd secondResolved)))
     = prependLeft (Some 51) ('', '' @ dq @ ''Foo Fallback: Arial'' @ dq) (edits (fst secondResolved))
   \<and> intro (edits (fst (step devPlugin ''a.css'' True (fst secondResolved, snd secondResolved))))
     = intro (edits (fst secondResolved))"
    using T k by (simp add: f prependLeft_def)
  have out': "toString (edits (fst (step devPlugin ''a.css'' True
                                     (fst secondResolved, snd secondResolved))))
                = intro (edits (fst secondResolved))
                  @ renderBefore (outro (edits (fst secondResolved))) 0
                      (take 51 (original (edits (fst secondResolved))))
                  @ ('', '' @ join '', '' (map (\<lambda>f. dq @ ''Foo'' @ '' Fallback: '' @ f @ dq) [''Arial'']))
                  @ render (outro (edits (fst secondResolved))) 51
                      (drop 51 (original (edits (fst secondResolved))))"
    using out by (simp add: f)
  have shown:
    \<open>toString (edits (fst secondResolved))
     = ''@font-face{font-family:Foo;src:url(/fonts/foo.woff2)}'' @ newline
       @ ''@font-face{font-family:Foo Fallback: Arial;src:local(Arial)}'' @ newline
       @ ''a{font-family:"Foo", "Foo Fallback: Arial", sans-serif}''
       @ ''b{font-family:"Foo", sans-serif}''\<close>
    \<open>toString (edits (fst (step devPlugin ''a.css'' True (fst secondResolved, snd secondResolved))))
     = ''@font-face{font-family:Foo;src:url(/fonts/foo.woff2)}'' @ newline
       @ ''@font-face{font-family:Foo Fallback: Arial;src:local(Arial)}'' @ newline
       @ ''a{font-family:"Foo", "Foo Fallback: Arial", sans-serif}''
       @ ''b{font-family:"Foo", "Foo Fallback: Arial", sans-serif}''\<close>
    using out [THEN conjunct2] out' unfolding before after by this+
  show ?thesis
    by (intro conjI) (rule rest [THEN conjunct1] rest [THEN conjunct2, THEN conjunct1]
        rest [THEN conjunct2, THEN conjunct2] shown)+
qed

section \<open>What stands in front of the stylesheet\<close>

lemma unchanged_declarationsLoop:
  "pc (snd (declarationsLoop p h later ds (st, t))) \<noteq> Finished \<Longrightarrow>
   edits (fst (declarationsLoop p h later ds (st, t))) = edits st"
proof (induction ds arbitrary: st t)
  case Nil
  then show ?case by (cases later) simp_all
next
  case (Cons d ds)
  show ?case
  proof (cases "d \<in> set (injectedDeclarations st)")
    case True
    then show ?thesis using Cons.IH [of st t] Cons.prems by simp
  next
    case False
    show ?thesis
    proof (cases "truthy (isDev p)")
      case True
      then show ?thesis
        using False Cons.prems
          Cons.IH [of "st\<lparr>injectedDeclarations := injectedDeclarations st @ [d]\<rparr>"
            "t\<lparr>prefaces := prefaces t @ [d @ newline]\<rparr>"]
        by simp
    next
      case dev: False
      then show ?thesis using False by simp
    qed
  qed
qed

lemma unchanged_step:
  "pc (snd (step p ident relative (st, t))) \<noteq> Finished \<Longrightarrow>
   edits (fst (step p ident relative (st, t))) = edits st"
  by (cases "pc t")
    (auto simp: step.simps unchanged_declarationsLoop split: option.splits list.splits)

lemma intro_spliceFamilies:
  "original m = code \<Longrightarrow>
   intro (spliceFamilies t (prepend (concat (prefaces t)) m)) = contribution code t @ intro m"
  by (auto simp: spliceFamilies_def contribution_def prependLeft_def prepend_def anchored_def
      newMagicString_def split: option.splits)

lemma finishing_step:
  assumes "wellFormed p t" and "original (edits st) = code"
    and "pc t \<noteq> Finished" and "pc (snd (step p ident relative (st, t))) = Finished"
  shows "intro (edits (fst (step p ident relative (st, t))))
           = contribution code (snd (step p ident relative (st, t))) @ intro (edits st)"
proof (cases "fonts (resolved p t) = None \<or> fonts (resolved p t) = Some []")
  case True
  show ?thesis
  proof (cases "pc t")
    case AwaitResolve
    then show ?thesis
      using True assms(1) by (auto simp: step.simps wellFormed_def contribution_def split: option.splits)
  next
    case (AwaitFallbacks font later)
    then show ?thesis
      using assms(2,4)
        finished_declarationsLoop [of p "fallbackDeclarations p t font \<noteq> []" later
          "declarations p ident relative t font" st t]
      by (simp add: step.simps intro_spliceFamilies)
  next
    case (AwaitTransform d ds h later)
    then show ?thesis
      using assms(2,4)
        finished_declarationsLoop [of p h later ds st "t\<lparr>prefaces := prefaces t @ [minified p d]\<rparr>"]
      by (simp add: step.simps intro_spliceFamilies)
  next
    case Finished
    then show ?thesis using assms(3) by simp
  qed
next
  case False
  then obtain f fs where "fonts (resolved p t) = Some (f # fs)"
    by (cases "fonts (resolved p t)") (auto simp: neq_Nil_conv)
  with assms(3,4) have "edits (fst (step p ident relative (st, t)))
     = spliceFamilies (snd (step p ident relative (st, t)))
         (prepend (concat (prefaces (snd (step p ident relative (st, t))))) (edits st))"
    by (rule finished_step)
  then show ?thesis
    using assms(2) by (simp add: intro_spliceFamilies)
qed

lemma wellFormed_step:
  "wellFormed p t \<Longrightarrow> wellFormed p (snd (step p ident relative (st, t)))"
  using balance_step by blast

lemma finished_update_same:
  "n < length ts \<Longrightarrow> pc (ts ! n) \<noteq> Finished \<Longrightarrow> pc y \<noteq> Finished \<Longrightarrow>
   filter (\<lambda>t. pc t = Finished) (ts[n := y]) = filter (\<lambda>t. pc t = Finished) ts"
  by (induction ts arbitrary: n) (auto split: nat.splits)

lemma finished_update_new:
  "n < length ts \<Longrightarrow> pc (ts ! n) \<noteq> Finished \<Longrightarrow> pc y = Finished \<Longrightarrow>
   mset (filter (\<lambda>t. pc t = Finished) (ts[n := y]))
     = add_mset y (mset (filter (\<lambda>t. pc t = Finished) ts))"
  by (induction ts arbitrary: n) (auto split: nat.splits)

lemma front_runSchedule:
  assumes "list_all (wellFormed p) ts" and "keeps code (edits st)"
    and "mset order = D + mset (filter (\<lambda>t. pc t = Finished) ts)"
    and "intro (edits st) = concat (map (contribution code) order)"
  shows "\<exists>order'.
           mset order' = D + mset (filter (\<lambda>t. pc t = Finished)
                                    (snd (runSchedule p ident relative schedule (st, ts))))
           \<and> intro (edits (fst (runSchedule p ident relative schedule (st, ts))))
               = concat (map (contribution code) order')"
  using assms
proof (induction schedule arbitrary: st ts order)
  case Nil
  then show ?case by auto
next
  case (Cons n ns)
  show ?case
  proof (cases "n < length ts")
    case False
    then show ?thesis using Cons.IH [OF Cons.prems] by simp
  next
    case True
    obtain st' t' where s: "step p ident relative (st, ts ! n) = (st', t')"
      by (cases "step p ident relative (st, ts ! n)")
    have wf: "wellFormed p (ts ! n)"
      using Cons.prems(1) True by (simp add: list_all_length)
    have wf': "list_all (wellFormed p) (ts[n := t'])"
      using Cons.prems(1) wellFormed_step [OF wf, of ident relative st] s
      by (simp add: list_all_update)
    have k': "keeps code (edits st')"
      using keeps_step [OF Cons.prems(2), of p ident relative "ts ! n"] s by simp
    have go: "runSchedule p ident relative (n # ns) (st, ts)
                  = runSchedule p ident relative ns (st', ts[n := t'])"
      using True s by simp
    show ?thesis
    proof (cases "pc (ts ! n) = Finished")
      case fin: True
      then have "st' = st" "t' = ts ! n"
        using s by (simp_all add: step_Finished)
      then have "ts[n := t'] = ts" by simp
      then show ?thesis
        using Cons.IH [OF Cons.prems] go \<open>st' = st\<close> by simp
    next
      case running: False
      show ?thesis
      proof (cases "pc t' = Finished")
        case True
        have "intro (edits st') = contribution code t' @ intro (edits st)"
          using finishing_step [OF wf _ running, of st code ident relative] Cons.prems(2) s True
          by (simp add: keeps_def)
        then have i: "intro (edits st') = concat (map (contribution code) (t' # order))"
          using Cons.prems(4) by simp
        have m: "mset (t' # order) = D + mset (filter (\<lambda>t. pc t = Finished) (ts[n := t']))"
          using Cons.prems(3) finished_update_new [OF \<open>n < length ts\<close> running True] by simp
        show ?thesis
          using Cons.IH [OF wf' k' m i] go by simp
      next
        case False
        have i: "intro (edits st') = concat (map (contribution code) order)"
          using unchanged_step [of p ident relative st "ts ! n"] s False Cons.prems(4) by simp
        have m: "mset order = D + mset (filter (\<lambda>t. pc t = Finished) (ts[n := t']))"
          using Cons.prems(3) finished_update_same [OF \<open>n < length ts\<close> running False]
          by simp
        show ?thesis
          using Cons.IH [OF wf' k' m i] go by simp
      qed
    qed
  qed
qed

lemma resumeTimes_Finished:
  "pc t = Finished \<Longrightarrow> resumeTimes p ident relative n (st, t) = (st, t)"
  by (induction n) (simp_all add: step_Finished)

lemma front_resumeTimes:
  assumes "wellFormed p t" and "keeps code (edits st)" and "pc t \<noteq> Finished"
    and "pc (snd (resumeTimes p ident relative n (st, t))) = Finished"
  shows "intro (edits (fst (resumeTimes p ident relative n (st, t))))
           = contribution code (snd (resumeTimes p ident relative n (st, t))) @ intro (edits st)"
  using assms
proof (induction n arbitrary: st t)
  case 0
  then show ?case by simp
next
  case (Suc n)
  obtain st' t' where s: "step p ident relative (st, t) = (st', t')"
    by (cases "step p ident relative (st, t)")
  show ?case
  proof (cases "pc t' = Finished")
    case True
    then have "resumeTimes p ident relative (Suc n) (st, t) = (st', t')"
      using s by (simp add: resumeTimes_Finished)
    moreover have "intro (edits st') = contribution code t' @ intro (edits st)"
      using finishing_step [OF Suc.prems(1) _ Suc.prems(3), of st code ident relative]
        Suc.prems(2) s True by (simp add: keeps_def)
    ultimately show ?thesis by simp
  next
    case False
    have "wellFormed p t'"
      using wellFormed_step [OF Suc.prems(1), of ident relative st] s by simp
    moreover have "keeps code (edits st')"
      using keeps_step [OF Suc.prems(2), of p ident relative t] s by simp
    moreover have "pc (snd (resumeTimes p ident relative n (st', t'))) = Finished"
      using Suc.prems(4) s by simp
    ultimately have "intro (edits (fst (resumeTimes p ident relative n (st', t'))))
           = contribution code (snd (resumeTimes p ident relative n (st', t'))) @ intro (edits st')"
      using False by (intro Suc.IH)
    moreover have "edits st' = edits st"
      using unchanged_step [of p ident relative st t] s False by simp
    ultimately show ?thesis using s by simp
  qed
qed

lemma keeps_resumeTimes:
  "keeps code (edits (fst x)) \<Longrightarrow> keeps code (edits (fst (resumeTimes p ident relative n x)))"
  by (rule resumeTimes_state [where I = "\<lambda>st. keeps code (edits st)"]) (simp_all add: keeps_step)

lemma wellFormed_runSchedule:
  "list_all (wellFormed p) ts \<Longrightarrow>
   list_all (wellFormed p) (snd (runSchedule p ident relative schedule (st, ts)))"
proof (induction schedule arbitrary: st ts)
  case Nil
  then show ?case by simp
next
  case (Cons n ns)
  show ?case
  proof (cases "n < length ts")
    case True
    obtain st' t' where s: "step p ident relative (st, ts ! n) = (st', t')"
      by (cases "step p ident relative (st, ts ! n)")
    have "wellFormed p (ts ! n)"
      using Cons.prems True by (simp add: list_all_length)
    then have "wellFormed p t'"
      using wellFormed_step [of p "ts ! n" ident relative st] s by simp
    then have "list_all (wellFormed p) (ts[n := t'])"
      using Cons.prems by (simp add: list_all_update)
    then show ?thesis using Cons.IH [of "ts[n := t']" st'] True s by simp
  next
    case False
    then show ?thesis using Cons by simp
  qed
qed

lemma front_settle:
  assumes "list_all (wellFormed p) ts" and "keeps code (edits st)"
    and "mset order = D + mset (filter (\<lambda>t. pc t = Finished) ts)"
    and "intro (edits st) = concat (map (contribution code) order)"
  shows "\<exists>order'.
           mset order' = D + mset (snd (settle p ident relative st ts))
           \<and> intro (edits (fst (settle p ident relative st ts)))
               = concat (map (contribution code) order')"
  using assms
proof (induction ts arbitrary: st order D)
  case Nil
  then show ?case by auto
next
  case (Cons t ts)
  obtain st' t' where r: "runToEnd p ident relative (st, t) = (st', t')"
    by (cases "runToEnd p ident relative (st, t)")
  have wf: "wellFormed p t" and wfs: "list_all (wellFormed p) ts"
    using Cons.prems(1) by simp_all
  have fin: "pc t' = Finished"
    using runToEnd_finishes [of p ident relative "(st, t)"] r by simp
  have k': "keeps code (edits st')"
    using keeps_resumeTimes [of code "(st, t)" p ident relative "awaitsLeft p t"] Cons.prems(2) r
    by (simp add: runToEnd_def)
  have "\<exists>order'. mset order' = (D + {#t'#}) + mset (filter (\<lambda>t. pc t = Finished) ts)
          \<and> intro (edits st') = concat (map (contribution code) order')"
  proof (cases "pc t = Finished")
    case True
    then have "st' = st" "t' = t"
      using r by (simp_all add: runToEnd_def resumeTimes_Finished)
    then show ?thesis
      using Cons.prems(3,4) True by (intro exI [of _ order]) simp
  next
    case False
    have "intro (edits st') = contribution code t' @ intro (edits st)"
      using front_resumeTimes [OF wf Cons.prems(2) False, of ident relative "awaitsLeft p t"] r fin
      by (simp add: runToEnd_def)
    then show ?thesis
      using Cons.prems(3,4) False by (intro exI [of _ "t' # order"]) simp
  qed
  then obtain order' where o: "mset order' = (D + {#t'#}) + mset (filter (\<lambda>t. pc t = Finished) ts)"
    "intro (edits st') = concat (map (contribution code) order')"
    by blast
  from Cons.IH [OF wfs k' o] obtain order'' where
    "mset order'' = (D + {#t'#}) + mset (snd (settle p ident relative st' ts))"
    "intro (edits (fst (settle p ident relative st' ts))) = concat (map (contribution code) order'')"
    by blast
  then show ?case
    using r by (cases "settle p ident relative st' ts") (auto intro!: exI [of _ order''])
qed

lemma front_rewrite:
  "\<exists>order. mset order = mset (snd (rewrite p schedule code ident relative registry))
     \<and> intro (edits (fst (rewrite p schedule code ident relative registry)))
         = concat (map (contribution code) order)"
proof -
  let ?st = "\<lparr>edits = newMagicString code, injectedDeclarations = [], fontsToPreload = registry\<rparr>"
  let ?ts = "secondWalk p (firstWalk p (parse (deps p) code) []) (parse (deps p) code)"
  obtain st' ts' where r: "runSchedule p ident relative schedule (?st, ?ts) = (st', ts')"
    by (cases "runSchedule p ident relative schedule (?st, ?ts)")
  have none: "filter (\<lambda>t. pc t = Finished) (secondWalk p existing ast) = []" for existing ast
    by (induction ast)
      (auto simp: secondWalk_def List.map_filter_def enter_def newTask_def split: list.splits)
  have k: "keeps code (edits ?st)" by (simp add: keeps_new)
  have "\<exists>order'. mset order' = {#} + mset (filter (\<lambda>t. pc t = Finished)
                                    (snd (runSchedule p ident relative schedule (?st, ?ts))))
           \<and> intro (edits (fst (runSchedule p ident relative schedule (?st, ?ts))))
               = concat (map (contribution code) order')"
    by (rule front_runSchedule [OF wellFormed_secondWalk k, of "[]"])
      (simp_all add: none newMagicString_def)
  then obtain order' where o: "mset order' = {#} + mset (filter (\<lambda>t. pc t = Finished) ts')"
    "intro (edits st') = concat (map (contribution code) order')"
    using r by auto
  have wf: "list_all (wellFormed p) ts'"
    using wellFormed_runSchedule [where p = p and ident = ident and relative = relative
        and schedule = schedule and st = ?st and ts = ?ts, OF wellFormed_secondWalk] r
    by simp
  have k': "keeps code (edits st')"
    using runSchedule_state [where I = "\<lambda>st. keeps code (edits st)", of p ident relative ?st schedule ?ts]
      keeps_step k r by simp
  have R: "rewrite p schedule code ident relative registry = settle p ident relative st' ts'"
    using r by (simp add: rewrite_def Let_def)
  show ?thesis
    using front_settle [OF wf k' o, of ident relative] unfolding R by simp
qed

text \<open>
  Claim C4. Under every schedule, when all tasks of a rewrite have settled: the injected
  set has no duplicates; the texts the tasks have queued are, as a multiset, exactly the
  queued forms of the members of the injected set, so every generated declaration text
  is queued once, however many declarations and tasks generate it; and the text in front
  of the stylesheet is made of one block per task, in some order of the tasks, each block
  being what that task has queued (after the fallback names, should their offset be one
  that magic-string does not anchor).
\<close>

theorem each_declaration_queued_once:
  "distinct (injectedDeclarations (fst (rewrite p schedule code ident relative registry)))
   \<and> mset (concat (map prefaces (snd (rewrite p schedule code ident relative registry))))
     = mset (map (emitted p)
         (injectedDeclarations (fst (rewrite p schedule code ident relative registry))))
   \<and> (\<exists>order. mset order = mset (snd (rewrite p schedule code ident relative registry))
         \<and> intro (edits (fst (rewrite p schedule code ident relative registry)))
             = concat (map (contribution code) order))"
proof -
  let ?st = "\<lparr>edits = newMagicString code, injectedDeclarations = [], fontsToPreload = registry\<rparr>"
  let ?ts = "secondWalk p (firstWalk p (parse (deps p) code) []) (parse (deps p) code)"
  obtain st' ts' where r: "runSchedule p ident relative schedule (?st, ?ts) = (st', ts')"
    by (cases "runSchedule p ident relative schedule (?st, ?ts)")
  have start: "mset (map (emitted p) (injectedDeclarations ?st)) = {#} + sum_list (map (queuedBy p) ?ts)"
    by (simp add: queuedBy_secondWalk)
  from balance_runSchedule [OF wellFormed_secondWalk start, of ident relative schedule] r
  have wf: "list_all (wellFormed p) ts'"
    and b: "mset (map (emitted p) (injectedDeclarations st')) = {#} + sum_list (map (queuedBy p) ts')"
    by simp_all
  have R: "rewrite p schedule code ident relative registry = settle p ident relative st' ts'"
    using r by (simp add: rewrite_def Let_def)
  have "mset (map (emitted p) (injectedDeclarations (fst (settle p ident relative st' ts'))))
          = sum_list (map (queuedBy p) (snd (settle p ident relative st' ts')))"
    using balance_settle [OF wf b, of ident relative] by simp
  also have "\<dots> = mset (concat (map prefaces (snd (settle p ident relative st' ts'))))"
    by (rule queuedBy_finished) (rule settle_finishes)
  finally show ?thesis
    using distinct_rewrite [of p schedule code ident relative registry] R
      front_rewrite [of p schedule code ident relative registry]
    by simp
qed


theorem each_declaration_queued_once_witness:
  "injectedDeclarations (fst (rewrite buildPlugin [0, 1, 1, 0, 1, 0] twiceCss ''a.css'' True emptyRegistry))
     = [''@font-face{font-family:Foo;src:url(/fonts/foo.woff2)}'',
        ''@font-face{font-family:Foo Fallback: Arial;src:local(Arial)}'']
   \<and> mset (concat (map prefaces
         (snd (rewrite buildPlugin [0, 1, 1, 0, 1, 0] twiceCss ''a.css'' True emptyRegistry))))
     = {#''/*min*/@font-face{font-family:Foo;src:url(/fonts/foo.woff2)}'',
         ''@font-face{font-family:Foo Fallback: Arial;src:local(Arial)}''#}"
proof -
  have inj: "injectedDeclarations
       (fst (rewrite buildPlugin [0, 1, 1, 0, 1, 0] twiceCss ''a.css'' True emptyRegistry))
     = [''@font-face{font-family:Foo;src:url(/fonts/foo.woff2)}'',
        ''@font-face{font-family:Foo Fallback: Arial;src:local(Arial)}'']"
    by code_simp
  have em: "map (emitted buildPlugin)
       [''@font-face{font-family:Foo;src:url(/fonts/foo.woff2)}'',
        ''@font-face{font-family:Foo Fallback: Arial;src:local(Arial)}'']
     = [''/*min*/@font-face{font-family:Foo;src:url(/fonts/foo.woff2)}'',
        ''@font-face{font-family:Foo Fallback: Arial;src:local(Arial)}'']"
    by code_simp
  show ?thesis
    using each_declaration_queued_once
      [of buildPlugin "[0, 1, 1, 0, 1, 0]" twiceCss "''a.css''" True emptyRegistry]
    unfolding inj em by simp
qed

text \<open>
  The stylesheet with two identical declarations \<^verbatim>\<open>font-family: "Foo", sans-serif\<close>: one
  \<^verbatim>\<open>@font-face\<close> rule for Foo in the output, with the tasks run one after the other and
  with their steps interleaved.
\<close>

lemma same_family_twice:
  \<open>toString (fst (transformCSS devPlugin [] twiceCss ''a.css'' True emptyRegistry))
     = ''@font-face{font-family:Foo;src:url(/fonts/foo.woff2)}'' @ newline
       @ ''@font-face{font-family:Foo Fallback: Arial;src:local(Arial)}'' @ newline
       @ ''a{font-family:"Foo", "Foo Fallback: Arial", sans-serif}''
       @ ''b{font-family:"Foo", "Foo Fallback: Arial", sans-serif}''\<close>
  \<open>toString (fst (transformCSS buildPlugin [0, 1, 1, 0, 1, 0] twiceCss ''a.css'' True emptyRegistry))
     = ''@font-face{font-family:Foo Fallback: Arial;src:local(Arial)}''
       @ ''/*min*/@font-face{font-family:Foo;src:url(/fonts/foo.woff2)}''
       @ ''a{font-family:"Foo", "Foo Fallback: Arial", sans-serif}''
       @ ''b{font-family:"Foo", "Foo Fallback: Arial", sans-serif}''\<close>
  by code_simp+

end
